theory Spec2Isabelle
  imports Main
begin

section \<open>The store\<close>

text \<open>
  The library is pointer code: nodes point at their neighbours, connections at their
  signal, iterator holders at the holder below them. Objects are therefore kept in an
  explicit store, indexed by address. A connection derives from the list node as its only
  base, and a signal holds the list (the sentinel node \<open>end_\<close>) as its first member, so a
  connection and its node have one address, and so have a signal and its sentinel.
  Iterator holders are automatic variables of \<open>operator()\<close>; the holder of the emission
  running at call depth \<open>d\<close> has address \<open>d\<close>.
\<close>

type_synonym addr = nat

text \<open>\<open>details::intrusive_list_node\<close>: both links are never null.\<close>

record node =
  prev :: addr
  "next" :: addr

text \<open>
  A callable (\<open>slot_t = std::function<void(Args...)>\<close>) is user code. It is modelled as a
  list of the things user code can do with the public interface, run in order; \<open>Log t\<close>
  records the tag \<open>t\<close> with the argument of the emission. The signature is \<open>void(int)\<close>.
  For the operations that construct an object, the address of the new object is part of
  the action; \<open>MoveAssign tmp dst src\<close> names the address \<open>tmp\<close> of the temporary that
  \<open>operator=\<close> builds.
\<close>

datatype action =
    Log nat
  | Disconnect addr
  | Connect addr addr "action list"
  | Emit addr int
  | DestroySignal addr
  | MoveConstruct addr addr
  | MoveAssign addr addr addr
  | DestroyConnection addr
  | Throw

text \<open>An empty \<open>std::function\<close> is \<open>None\<close>; calling it throws \<open>std::bad_function_call\<close>.\<close>

type_synonym slot_t = "action list option"

text \<open>\<open>signal::iterator_holder\<close>; the fields are \<open>prev\<close>, \<open>current\<close> and \<open>sig\<close> in the source.\<close>

record iterator_holder =
  hprev :: "nat option"
  current :: addr
  hsig :: "addr option"

record state =
  nodes :: "addr \<Rightarrow> node"
  slot :: "addr \<Rightarrow> slot_t"
  sig :: "addr \<Rightarrow> addr option"
  tail :: "addr \<Rightarrow> nat option"
  holders :: "nat \<Rightarrow> iterator_holder"
  log :: "(nat \<times> int) list"

definition nxt :: "state \<Rightarrow> addr \<Rightarrow> addr" where
  "nxt s a = next (nodes s a)"

definition prv :: "state \<Rightarrow> addr \<Rightarrow> addr" where
  "prv s a = prev (nodes s a)"

definition set_next :: "addr \<Rightarrow> addr \<Rightarrow> state \<Rightarrow> state" where
  "set_next a b s = s\<lparr>nodes := (nodes s)(a := (nodes s a)\<lparr>next := b\<rparr>)\<rparr>"

definition set_prev :: "addr \<Rightarrow> addr \<Rightarrow> state \<Rightarrow> state" where
  "set_prev a b s = s\<lparr>nodes := (nodes s)(a := (nodes s a)\<lparr>prev := b\<rparr>)\<rparr>"

definition set_current :: "nat \<Rightarrow> addr \<Rightarrow> state \<Rightarrow> state" where
  "set_current h c s = s\<lparr>holders := (holders s)(h := (holders s h)\<lparr>current := c\<rparr>)\<rparr>"

definition set_hsig :: "nat \<Rightarrow> addr option \<Rightarrow> state \<Rightarrow> state" where
  "set_hsig h x s = s\<lparr>holders := (holders s)(h := (holders s h)\<lparr>hsig := x\<rparr>)\<rparr>"

definition set_sig :: "addr \<Rightarrow> addr option \<Rightarrow> state \<Rightarrow> state" where
  "set_sig c x s = s\<lparr>sig := (sig s)(c := x)\<rparr>"

definition set_slot :: "addr \<Rightarrow> slot_t \<Rightarrow> state \<Rightarrow> state" where
  "set_slot c x s = s\<lparr>slot := (slot s)(c := x)\<rparr>"

definition set_tail :: "addr \<Rightarrow> nat option \<Rightarrow> state \<Rightarrow> state" where
  "set_tail S x s = s\<lparr>tail := (tail s)(S := x)\<rparr>"

section \<open>intrusive\_list.h\<close>

subsection \<open>\<open>intrusive_list_node\<close>\<close>

text \<open>The default constructor: \<open>prev(this), next(this)\<close>.\<close>

definition node_ctor :: "addr \<Rightarrow> state \<Rightarrow> state" where
  "node_ctor this s = set_next this this (set_prev this this s)"

text \<open>\<open>empty()\<close>: \<open>next == this && prev == this\<close>.\<close>

definition empty_node :: "state \<Rightarrow> addr \<Rightarrow> bool" where
  "empty_node s this \<longleftrightarrow> nxt s this = this \<and> prv s this = this"

definition quite_remove :: "addr \<Rightarrow> state \<Rightarrow> state" where
  "quite_remove this s = set_next this this (set_prev this this s)"

text \<open>
  \<open>remove()\<close>: \<open>next->prev = prev; prev->next = next;\<close> under \<open>!empty()\<close>, then
  \<open>quite_remove()\<close>. The second assignment reads the fields after the first one is done.
\<close>

definition remove :: "addr \<Rightarrow> state \<Rightarrow> state" where
  "remove this s =
     quite_remove this
       (if \<not> empty_node s this then
          (let s1 = set_prev (nxt s this) (prv s this) s
           in set_next (prv s1 this) (nxt s1 this) s1)
        else s)"

text \<open>\<open>update()\<close>: \<open>next->prev = this; prev->next = this;\<close>\<close>

definition update :: "addr \<Rightarrow> state \<Rightarrow> state" where
  "update this s =
     (let s1 = set_prev (nxt s this) this s
      in set_next (prv s1 this) this s1)"

text \<open>\<open>std::swap\<close> on the two \<open>prev\<close> fields, and on the two \<open>next\<close> fields.\<close>

definition swap_prev :: "addr \<Rightarrow> addr \<Rightarrow> state \<Rightarrow> state" where
  "swap_prev a b s =
     (let tmp = prv s a; s1 = set_prev a (prv s b) s in set_prev b tmp s1)"

definition swap_next :: "addr \<Rightarrow> addr \<Rightarrow> state \<Rightarrow> state" where
  "swap_next a b s =
     (let tmp = nxt s a; s1 = set_next a (nxt s b) s in set_next b tmp s1)"

text \<open>\<open>intrusive_list_node::swap\<close>, with its three branches.\<close>

definition node_swap :: "addr \<Rightarrow> addr \<Rightarrow> state \<Rightarrow> state" where
  "node_swap this other s =
     (if empty_node s this \<and> empty_node s other then s
      else if empty_node s this \<or> empty_node s other then
        (let empt = (if empty_node s this then this else other);
             not_empt = (if \<not> empty_node s this then this else other);
             s1 = set_next empt (nxt s not_empt) s;
             s2 = set_prev empt (prv s1 not_empt) s1;
             s3 = update empt s2
         in quite_remove not_empt s3)
      else
        (let s1 = swap_prev this other s;
             s2 = swap_next this other s1;
             s3 = update this s2
         in update other s3))"

text \<open>The move constructor \<open>intrusive_list_node(intrusive_list_node&& other)\<close>.\<close>

definition node_move_ctor :: "addr \<Rightarrow> addr \<Rightarrow> state \<Rightarrow> state" where
  "node_move_ctor this other s =
     (if \<not> empty_node s other then
        (let s1 = set_next this (nxt s other) s;
             s2 = set_prev this (prv s1 other) s1;
             s3 = update this s2
         in quite_remove other s3)
      else quite_remove this s)"

text \<open>The destructor \<open>~intrusive_list_node()\<close>.\<close>

definition node_dtor :: "addr \<Rightarrow> state \<Rightarrow> state" where
  "node_dtor this s = remove this s"

text \<open>
  Move assignment: \<open>intrusive_list_node(std::move(other)).swap(*this)\<close> under
  \<open>&other != this\<close>; the temporary, at address \<open>tmp\<close>, is destroyed at the end of the
  statement.
\<close>

definition node_move_assign :: "addr \<Rightarrow> addr \<Rightarrow> addr \<Rightarrow> state \<Rightarrow> state" where
  "node_move_assign tmp this other s =
     (if other \<noteq> this then
        node_dtor tmp (node_swap tmp this (node_move_ctor tmp other s))
      else s)"

subsection \<open>\<open>intrusive_list\<close>\<close>

text \<open>A list is its sentinel \<open>end_\<close>; \<open>begin()\<close> is the sentinel's successor, \<open>end()\<close> the
  sentinel.\<close>

definition list_begin :: "state \<Rightarrow> addr \<Rightarrow> addr" where
  "list_begin s L = nxt s L"

definition list_end :: "addr \<Rightarrow> addr" where
  "list_end L = L"

text \<open>\<open>insert(it, value)\<close>: unlink the node, then splice it before \<open>it\<close>.\<close>

definition insert_node :: "addr \<Rightarrow> addr \<Rightarrow> state \<Rightarrow> state" where
  "insert_node it n s =
     (let s1 = remove n s;
          s2 = set_prev n (prv s1 it) s1;
          s3 = set_next n it s2
      in update n s3)"

definition push_back :: "addr \<Rightarrow> addr \<Rightarrow> state \<Rightarrow> state" where
  "push_back L n s = insert_node (list_end L) n s"

text \<open>\<open>erase(it)\<close> returns the successor read before the node is unlinked.\<close>

definition erase :: "addr \<Rightarrow> state \<Rightarrow> addr \<times> state" where
  "erase it s = (nxt s it, remove it s)"

text \<open>
  \<open>~intrusive_list()\<close>: \<open>while (it != end()) erase(it++)\<close>, then the member \<open>end_\<close> is
  destroyed. The loop follows pointers, so it is a partial function: not returning is
  \<open>None\<close>.
\<close>

partial_function (option) erase_all :: "addr \<Rightarrow> addr \<Rightarrow> state \<Rightarrow> state option" where
  "erase_all L it s =
     (if it \<noteq> list_end L then erase_all L (nxt s it) (snd (erase it s)) else Some s)"

definition list_dtor :: "addr \<Rightarrow> state \<Rightarrow> state option" where
  "list_dtor L s =
     (case erase_all L (list_begin s L) s of
        None \<Rightarrow> None
      | Some s1 \<Rightarrow> Some (node_dtor L s1))"

section \<open>signals.h\<close>

subsection \<open>\<open>signal::connection\<close>\<close>

text \<open>\<open>connection() = default\<close>: an idle node, an empty callable, no signal.\<close>

definition connection_default_ctor :: "addr \<Rightarrow> state \<Rightarrow> state" where
  "connection_default_ctor this s = set_sig this None (set_slot this None (node_ctor this s))"

text \<open>
  \<open>connection(signal* sig, slot_t slot)\<close>: the base node, then the members \<open>slot\<close> and
  \<open>sig\<close> in the order of their declaration, then \<open>sig->list.push_back(*this)\<close>.
\<close>

definition connection_ctor :: "addr \<Rightarrow> addr \<Rightarrow> slot_t \<Rightarrow> state \<Rightarrow> state" where
  "connection_ctor this S slt s =
     push_back S this (set_sig this (Some S) (set_slot this slt (node_ctor this s)))"

text \<open>
  The loop of \<open>disconnect\<close> over the holders of the signal, from \<open>sig->tail\<close> along
  \<open>prev\<close>: a holder whose cursor is at this connection is stepped to the successor.
\<close>

partial_function (option) steer :: "addr \<Rightarrow> nat option \<Rightarrow> state \<Rightarrow> state option" where
  "steer this cur s =
     (case cur of
        None \<Rightarrow> Some s
      | Some h \<Rightarrow>
          (let s1 = (if this = current (holders s h)
                     then set_current h (nxt s (current (holders s h))) s else s)
           in steer this (hprev (holders s1 h)) s1))"

definition disconnect :: "addr \<Rightarrow> state \<Rightarrow> state option" where
  "disconnect this s =
     (case sig s this of
        None \<Rightarrow> Some s
      | Some S \<Rightarrow>
          (case steer this (tail s S) s of
             None \<Rightarrow> None
           | Some s1 \<Rightarrow> Some (set_sig this None (remove this s1))))"

text \<open>
  The move constructor. The base node is default-constructed (the constructor names no
  base initialiser); the callable is moved, which leaves the source's callable empty.
  \<open>++(iterator(&other))\<close> is \<open>other.next\<close>.
\<close>

definition connection_move_ctor :: "addr \<Rightarrow> addr \<Rightarrow> state \<Rightarrow> state option" where
  "connection_move_ctor this other s =
     (let s1 = node_ctor this s;
          s2 = set_slot other None (set_slot this (slot s1 other) s1);
          s3 = set_sig this (sig s2 other) s2;
          s4 = update this s3;
          s5 = (case sig s4 this of
                  None \<Rightarrow> s4
                | Some S \<Rightarrow> insert_node (nxt s4 other) this s4)
      in disconnect other s5)"

text \<open>\<open>connection::swap\<close>: the base nodes, then \<open>slot\<close>, then \<open>sig\<close>.\<close>

definition connection_swap :: "addr \<Rightarrow> addr \<Rightarrow> state \<Rightarrow> state" where
  "connection_swap this other s =
     (let s1 = node_swap this other s;
          s2 = set_slot other (slot s1 this) (set_slot this (slot s1 other) s1)
      in set_sig other (sig s2 this) (set_sig this (sig s2 other) s2))"

text \<open>\<open>~connection()\<close>: \<open>disconnect()\<close>, then the base node's destructor.\<close>

definition connection_dtor :: "addr \<Rightarrow> state \<Rightarrow> state option" where
  "connection_dtor this s =
     (case disconnect this s of
        None \<Rightarrow> None
      | Some s1 \<Rightarrow> Some (node_dtor this s1))"

text \<open>
  Move assignment: \<open>connection(std::move(other)).swap(*this)\<close> under \<open>&other != this\<close>,
  the temporary at address \<open>tmp\<close>.
\<close>

definition connection_move_assign :: "addr \<Rightarrow> addr \<Rightarrow> addr \<Rightarrow> state \<Rightarrow> state option" where
  "connection_move_assign tmp this other s =
     (if other \<noteq> this then
        (case connection_move_ctor tmp other s of
           None \<Rightarrow> None
         | Some s1 \<Rightarrow> connection_dtor tmp (connection_swap tmp this s1))
      else Some s)"

subsection \<open>\<open>signal::iterator_holder\<close>\<close>

definition holder_ctor :: "nat \<Rightarrow> addr \<Rightarrow> state \<Rightarrow> state" where
  "holder_ctor h S s =
     set_tail S (Some h)
       (s\<lparr>holders := (holders s)
            (h := \<lparr>hprev = tail s S, current = list_begin s S, hsig = Some S\<rparr>)\<rparr>)"

definition holder_dtor :: "nat \<Rightarrow> state \<Rightarrow> state" where
  "holder_dtor h s =
     (case hsig (holders s h) of
        None \<Rightarrow> s
      | Some S \<Rightarrow> set_hsig h None (set_tail S (hprev (holders s h)) s))"

subsection \<open>\<open>signal\<close>\<close>

text \<open>
  \<open>signal::swap\<close> and the move operations of \<open>signal\<close> are left out: none of the
  properties below is about them.
\<close>

text \<open>\<open>connect\<close>: the connection is constructed in the caller's object, at address \<open>c\<close>.\<close>

definition connect :: "addr \<Rightarrow> slot_t \<Rightarrow> addr \<Rightarrow> state \<Rightarrow> state" where
  "connect S slt c s = connection_ctor c S slt s"

text \<open>
  \<open>~signal()\<close>: the first loop nulls the \<open>sig\<close> of every holder from \<open>tail\<close> down, the
  second the \<open>sig\<close> of every connection of the list; then the member \<open>list\<close> is destroyed.
\<close>

partial_function (option) null_holders :: "addr \<Rightarrow> state \<Rightarrow> state option" where
  "null_holders S s =
     (case tail s S of
        None \<Rightarrow> Some s
      | Some h \<Rightarrow>
          (let it = hprev (holders s h)
           in null_holders S (set_tail S it (set_hsig h None s))))"

partial_function (option) null_connections :: "addr \<Rightarrow> addr \<Rightarrow> state \<Rightarrow> state option" where
  "null_connections S it s =
     (if it \<noteq> list_end S then null_connections S (nxt s it) (set_sig it None s)
      else Some s)"

definition signal_dtor :: "addr \<Rightarrow> state \<Rightarrow> state option" where
  "signal_dtor S s =
     (case null_holders S s of
        None \<Rightarrow> None
      | Some s1 \<Rightarrow>
          (case null_connections S (list_begin s1 S) s1 of
             None \<Rightarrow> None
           | Some s2 \<Rightarrow> list_dtor S s2))"

subsection \<open>Callables and \<open>operator()\<close>\<close>

datatype outcome = Returned | Thrown

type_synonym result = "(outcome \<times> state) option"

type_synonym emitter = "addr \<Rightarrow> int \<Rightarrow> state \<Rightarrow> result"

definition returned :: "state option \<Rightarrow> result" where
  "returned r = (case r of None \<Rightarrow> None | Some s \<Rightarrow> Some (Returned, s))"

text \<open>
  One action of a callable. \<open>em\<close> is what an emission from inside the callable does; \<open>a\<close>
  is the argument the callable was called with.
\<close>

fun exec :: "emitter \<Rightarrow> int \<Rightarrow> action \<Rightarrow> state \<Rightarrow> result" where
  "exec em a (Log t) s = Some (Returned, s\<lparr>log := log s @ [(t, a)]\<rparr>)"
| "exec em a (Disconnect c) s = returned (disconnect c s)"
| "exec em a (Connect S c slt) s = Some (Returned, connect S (Some slt) c s)"
| "exec em a (Emit S b) s = em S b s"
| "exec em a (DestroySignal S) s = returned (signal_dtor S s)"
| "exec em a (MoveConstruct dst src) s = returned (connection_move_ctor dst src s)"
| "exec em a (MoveAssign tmp dst src) s = returned (connection_move_assign tmp dst src s)"
| "exec em a (DestroyConnection c) s = returned (connection_dtor c s)"
| "exec em a Throw s = Some (Thrown, s)"

fun run :: "emitter \<Rightarrow> int \<Rightarrow> action list \<Rightarrow> state \<Rightarrow> result" where
  "run em a [] s = Some (Returned, s)"
| "run em a (x # xs) s =
     (case exec em a x s of
        None \<Rightarrow> None
      | Some (Thrown, s1) \<Rightarrow> Some (Thrown, s1)
      | Some (Returned, s1) \<Rightarrow> run em a xs s1)"

definition invoke :: "emitter \<Rightarrow> addr \<Rightarrow> int \<Rightarrow> state \<Rightarrow> result" where
  "invoke em c a s =
     (case slot s c of
        None \<Rightarrow> Some (Thrown, s)
      | Some acts \<Rightarrow> run em a acts s)"

text \<open>
  The loop of \<open>operator()\<close> with the holder \<open>h\<close> already constructed:
  \<open>(it.current++)->slot(args...)\<close> steps the cursor and then calls the callable of the
  connection the cursor was at; \<open>if (!it.sig) return;\<close> follows. \<open>k\<close> bounds the number of
  iterations; running out of it is \<open>None\<close>.
\<close>

fun dispatch :: "emitter \<Rightarrow> nat \<Rightarrow> nat \<Rightarrow> addr \<Rightarrow> int \<Rightarrow> state \<Rightarrow> result" where
  "dispatch em 0 h S a s = None"
| "dispatch em (Suc k) h S a s =
     (if current (holders s h) \<noteq> list_end S then
        (let c = current (holders s h);
             s1 = set_current h (nxt s c) s
         in case invoke em c a s1 of
              None \<Rightarrow> None
            | Some (Thrown, s2) \<Rightarrow> Some (Thrown, s2)
            | Some (Returned, s2) \<Rightarrow>
                if hsig (holders s2 h) = None then Some (Returned, s2)
                else dispatch em k h S a s2)
      else Some (Returned, s))"

text \<open>
  \<open>operator()\<close> at call depth \<open>d\<close>: the holder is constructed, the loop runs, and the
  holder is destroyed on every way out, a thrown exception included. The fuel \<open>n\<close> bounds
  the depth of nested emissions and the iterations of each loop.
\<close>

primrec emit :: "nat \<Rightarrow> nat \<Rightarrow> addr \<Rightarrow> int \<Rightarrow> state \<Rightarrow> result" where
  "emit 0 d S a s = None"
| "emit (Suc n) d S a s =
     (case dispatch (emit n (Suc d)) (Suc n) d S a (holder_ctor d S s) of
        None \<Rightarrow> None
      | Some (r, s1) \<Rightarrow> Some (r, holder_dtor d s1))"

section \<open>Well-formed lists and stacks\<close>

text \<open>
  \<open>links s p xs q\<close>: following \<open>next\<close> from \<open>p\<close> visits the nodes \<open>xs\<close> in order and
  arrives at \<open>q\<close>, and every \<open>prev\<close> on the way points back (reciprocity).
\<close>

fun links :: "state \<Rightarrow> addr \<Rightarrow> addr list \<Rightarrow> addr \<Rightarrow> bool" where
  "links s p [] q \<longleftrightarrow> nxt s p = q \<and> prv s q = p"
| "links s p (x # xs) q \<longleftrightarrow> nxt s p = x \<and> prv s x = p \<and> links s x xs q"

text \<open>The list with sentinel \<open>L\<close> is one cycle through \<open>L\<close> and the elements \<open>cs\<close>.\<close>

definition is_list :: "state \<Rightarrow> addr \<Rightarrow> addr list \<Rightarrow> bool" where
  "is_list s L cs \<longleftrightarrow> distinct (L # cs) \<and> links s L cs L"

text \<open>
  \<open>stack s t hs\<close>: the holders reached from the pointer \<open>t\<close> along \<open>prev\<close> are \<open>hs\<close>,
  innermost first, and the last of them has a null \<open>prev\<close>.
\<close>

fun stack :: "state \<Rightarrow> nat option \<Rightarrow> nat list \<Rightarrow> bool" where
  "stack s t [] \<longleftrightarrow> t = None"
| "stack s t (h # hs) \<longleftrightarrow> t = Some h \<and> stack s (hprev (holders s h)) hs"

text \<open>
  A store in which nothing has been linked yet: every address holds an idle node, an
  empty callable and a null signal pointer, and no emission is running. A signal placed at
  any address of it is a default-constructed signal.
\<close>

definition init :: state where
  "init = \<lparr>nodes = (\<lambda>a. \<lparr>prev = a, next = a\<rparr>), slot = (\<lambda>_. None), sig = (\<lambda>_. None),
     tail = (\<lambda>_. None), holders = (\<lambda>_. \<lparr>hprev = None, current = 0, hsig = None\<rparr>),
     log = []\<rparr>"

section \<open>Stating what an operation did\<close>

text \<open>
  The store after the loop of \<open>disconnect\<close> has run over the holders \<open>hs\<close>: each of them
  whose cursor was at \<open>c\<close> has it at the successor of \<open>c\<close>, and nothing else has changed.
\<close>

definition steered :: "addr \<Rightarrow> nat list \<Rightarrow> state \<Rightarrow> state" where
  "steered c hs s =
     s\<lparr>holders := (\<lambda>h. if h \<in> set hs \<and> current (holders s h) = c
                         then (holders s h)\<lparr>current := nxt s c\<rparr> else holders s h)\<rparr>"

text \<open>
  What callables that only record leave in the log when they are called in the order \<open>cs\<close>
  with the argument \<open>a\<close>, the callable of \<open>c\<close> recording the tags \<open>tg c\<close>.
\<close>

definition recorded :: "int \<Rightarrow> (addr \<Rightarrow> nat list) \<Rightarrow> addr list \<Rightarrow> (nat \<times> int) list" where
  "recorded a tg cs = concat (map (\<lambda>c. map (\<lambda>t. (t, a)) (tg c)) cs)"

text \<open>User code that connects such callables, one \<open>connect\<close> after the other.\<close>

fun connect_loggers :: "addr \<Rightarrow> (addr \<Rightarrow> nat list) \<Rightarrow> addr list \<Rightarrow> state \<Rightarrow> state" where
  "connect_loggers S tg [] s = s"
| "connect_loggers S tg (c # cs) s = connect_loggers S tg cs (connect S (Some (map Log (tg c))) c s)"

text \<open>
  The node \<open>A\<close> is linked between \<open>X\<close> and \<open>Y\<close>, with reciprocal links on both sides.
\<close>

definition between :: "state \<Rightarrow> addr \<Rightarrow> addr \<Rightarrow> addr \<Rightarrow> bool" where
  "between s X A Y \<longleftrightarrow> nxt s X = A \<and> prv s A = X \<and> nxt s A = Y \<and> prv s Y = A"

section \<open>Reading the store after a write\<close>

declare steer.simps [code] null_holders.simps [code] null_connections.simps [code]
  erase_all.simps [code]

lemmas store_defs = nxt_def prv_def set_next_def set_prev_def set_current_def set_hsig_def
  set_sig_def set_slot_def set_tail_def

lemma nxt_set_next [simp]: "nxt (set_next a b s) x = (if x = a then b else nxt s x)"
  by (simp add: store_defs)

lemma prv_set_prev [simp]: "prv (set_prev a b s) x = (if x = a then b else prv s x)"
  by (simp add: store_defs)

lemma nxt_unchanged [simp]:
  "nxt (set_prev a b s) = nxt s" "nxt (set_current h c s) = nxt s"
  "nxt (set_hsig h x s) = nxt s" "nxt (set_sig a y s) = nxt s"
  "nxt (set_slot a z s) = nxt s" "nxt (set_tail a t s) = nxt s"
  "nxt (s\<lparr>log := l\<rparr>) = nxt s" "nxt (s\<lparr>holders := H\<rparr>) = nxt s"
  by (simp_all add: store_defs fun_eq_iff)

lemma prv_unchanged [simp]:
  "prv (set_next a b s) = prv s" "prv (set_current h c s) = prv s"
  "prv (set_hsig h x s) = prv s" "prv (set_sig a y s) = prv s"
  "prv (set_slot a z s) = prv s" "prv (set_tail a t s) = prv s"
  "prv (s\<lparr>log := l\<rparr>) = prv s" "prv (s\<lparr>holders := H\<rparr>) = prv s"
  by (simp_all add: store_defs fun_eq_iff)

lemma sig_set_sig [simp]: "sig (set_sig c x s) = (sig s)(c := x)"
  by (simp add: store_defs)

lemma sig_unchanged [simp]:
  "sig (set_next a b s) = sig s" "sig (set_prev a b s) = sig s"
  "sig (set_current h c s) = sig s" "sig (set_hsig h x s) = sig s"
  "sig (set_slot a z s) = sig s" "sig (set_tail a t s) = sig s"
  by (simp_all add: store_defs)

lemma slot_set_slot [simp]: "slot (set_slot c x s) = (slot s)(c := x)"
  by (simp add: store_defs)

lemma slot_unchanged [simp]:
  "slot (set_next a b s) = slot s" "slot (set_prev a b s) = slot s"
  "slot (set_current h c s) = slot s" "slot (set_hsig h x s) = slot s"
  "slot (set_sig a y s) = slot s" "slot (set_tail a t s) = slot s"
  by (simp_all add: store_defs)

lemma tail_set_tail [simp]: "tail (set_tail S x s) = (tail s)(S := x)"
  by (simp add: store_defs)

lemma tail_unchanged [simp]:
  "tail (set_next a b s) = tail s" "tail (set_prev a b s) = tail s"
  "tail (set_current h c s) = tail s" "tail (set_hsig h x s) = tail s"
  "tail (set_sig a y s) = tail s" "tail (set_slot a z s) = tail s"
  by (simp_all add: store_defs)

lemma holders_set_current [simp]:
  "holders (set_current h c s) = (holders s)(h := (holders s h)\<lparr>current := c\<rparr>)"
  by (simp add: store_defs)

lemma holders_set_hsig [simp]:
  "holders (set_hsig h x s) = (holders s)(h := (holders s h)\<lparr>hsig := x\<rparr>)"
  by (simp add: store_defs)

lemma holders_unchanged [simp]:
  "holders (set_next a b s) = holders s" "holders (set_prev a b s) = holders s"
  "holders (set_sig a y s) = holders s" "holders (set_slot a z s) = holders s"
  "holders (set_tail a t s) = holders s"
  by (simp_all add: store_defs)

lemma log_unchanged [simp]:
  "log (set_next a b s) = log s" "log (set_prev a b s) = log s"
  "log (set_current h c s) = log s" "log (set_hsig h x s) = log s"
  "log (set_sig a y s) = log s" "log (set_slot a z s) = log s"
  "log (set_tail a t s) = log s"
  by (simp_all add: store_defs)

section \<open>Lists in the store\<close>

lemma nxt_remove: "nxt (remove c s) = (nxt s)(prv s c := nxt s c, c := c)"
  by (auto simp: remove_def quite_remove_def empty_node_def Let_def fun_eq_iff)

lemma prv_remove: "prv (remove c s) = (prv s)(nxt s c := prv s c, c := c)"
  by (auto simp: remove_def quite_remove_def empty_node_def Let_def fun_eq_iff)

lemma nxt_update: "nxt (update c s) = (nxt s)((if nxt s c = c then c else prv s c) := c)"
  by (auto simp: update_def Let_def fun_eq_iff)

lemma prv_update: "prv (update c s) = (prv s)(nxt s c := c)"
  by (auto simp: update_def Let_def fun_eq_iff)

lemma nxt_insert_node:
  "empty_node s n \<Longrightarrow> n \<noteq> it \<Longrightarrow> nxt (insert_node it n s) = (nxt s)(n := it, prv s it := n)"
  by (auto simp: insert_node_def Let_def nxt_update prv_update nxt_remove prv_remove empty_node_def fun_eq_iff)

lemma prv_insert_node:
  "empty_node s n \<Longrightarrow> n \<noteq> it \<Longrightarrow> prv (insert_node it n s) = (prv s)(n := prv s it, it := n)"
  by (auto simp: insert_node_def Let_def nxt_update prv_update nxt_remove prv_remove empty_node_def fun_eq_iff)

lemma links_frame:
  "\<forall>a\<in>set (p # xs). nxt s' a = nxt s a \<Longrightarrow> \<forall>b\<in>set (xs @ [q]). prv s' b = prv s b
   \<Longrightarrow> links s' p xs q = links s p xs q"
  by (induction xs arbitrary: p) auto

lemma links_append: "links s p (xs @ y # ys) q \<longleftrightarrow> links s p xs y \<and> links s y ys q"
  by (induction xs arbitrary: p) auto

lemma links_snoc: "links s p (xs @ [y]) q \<longleftrightarrow> links s p xs y \<and> nxt s y = q \<and> prv s q = y"
  by (simp add: links_append)

lemma links_hd: "links s p xs q \<Longrightarrow> nxt s p = hd (xs @ [q])"
  by (cases xs) auto

lemma links_last: "links s p xs q \<Longrightarrow> prv s q = last (p # xs)"
  by (induction xs arbitrary: p) auto

lemma is_list_remove:
  assumes "is_list s L (xs @ c # ys)"
  shows "is_list (remove c s) L (xs @ ys)"
proof -
  from assms have d: "distinct (L # xs @ c # ys)" and l1: "links s L xs c" and l2: "links s c ys L"
    by (auto simp: is_list_def links_append)
  have pc: "prv s c = last (L # xs)" using l1 by (rule links_last)
  have nc: "nxt s c = hd (ys @ [L])" using l2 by (rule links_hd)
  let ?s = "remove c s"
  have left: "links ?s L xs (hd (ys @ [L]))"
  proof (cases xs rule: rev_cases)
    case Nil
    with pc nc d show ?thesis by (cases ys) (auto simp: nxt_remove prv_remove)
  next
    case (snoc xs' x)
    have "links ?s L xs' x = links s L xs' x"
      using d snoc pc nc by (intro links_frame) (cases ys; auto simp: nxt_remove prv_remove)+
    with l1 snoc pc nc d show ?thesis
      by (cases ys) (auto simp: nxt_remove prv_remove links_snoc)
  qed
  show ?thesis
  proof (cases ys)
    case Nil
    with left d show ?thesis by (simp add: is_list_def)
  next
    case (Cons y ys')
    have "links ?s y ys' L = links s y ys' L"
      using d Cons pc nc by (intro links_frame) (cases xs rule: rev_cases; auto simp: nxt_remove prv_remove)+
    with left l2 Cons d show ?thesis
      by (auto simp: is_list_def links_append)
  qed
qed

lemma empty_node_remove: "empty_node (remove c s) c"
  by (simp add: empty_node_def nxt_remove prv_remove)


lemma is_list_insert_at:
  assumes "is_list s L (xs @ ys)" and n: "n \<notin> set (L # xs @ ys)" and e: "empty_node s n"
    and it: "it = hd (ys @ [L])"
  shows "is_list (insert_node it n s) L (xs @ n # ys)"
proof -
  let ?s = "insert_node it n s"
  let ?l = "last (L # xs)"
  from assms have d: "distinct (L # xs @ ys)" and l: "links s L (xs @ ys) L"
    by (auto simp: is_list_def)
  have ni: "n \<noteq> it" using n it by (cases ys) auto
  have nl: "n \<noteq> ?l" using n by (cases xs rule: rev_cases) auto
  note upd = nxt_insert_node [OF e ni] prv_insert_node [OF e ni]
  have pit: "prv s it = ?l"
    using l it by (cases ys) (auto simp: links_append dest: links_last)
  have new: "nxt ?s n = it" "prv ?s it = n" "nxt ?s ?l = n" "prv ?s n = ?l"
    using ni nl pit by (simp_all add: upd)
  have nx: "nxt ?s a = nxt s a" if "a \<noteq> n" "a \<noteq> ?l" for a
    using that pit by (simp add: upd)
  have px: "prv ?s b = prv s b" if "b \<noteq> n" "b \<noteq> it" for b
    using that by (simp add: upd)
  have left: "links ?s L xs n"
  proof (cases xs rule: rev_cases)
    case Nil
    with new show ?thesis by simp
  next
    case (snoc xs' x)
    have "links s L xs' x" using l snoc by (cases ys) (auto simp: links_append)
    moreover have "links ?s L xs' x = links s L xs' x"
    proof (rule links_frame)
      show "\<forall>a\<in>set (L # xs'). nxt ?s a = nxt s a"
      proof
        fix a assume "a \<in> set (L # xs')"
        then have "a \<noteq> n" "a \<noteq> ?l" using d n snoc by auto
        then show "nxt ?s a = nxt s a" by (rule nx)
      qed
      show "\<forall>b\<in>set (xs' @ [x]). prv ?s b = prv s b"
      proof
        fix b assume "b \<in> set (xs' @ [x])"
        then have "b \<noteq> n" "b \<noteq> it" using d n snoc it by (cases ys; auto)+
        then show "prv ?s b = prv s b" by (rule px)
      qed
    qed
    ultimately show ?thesis using snoc new by (simp add: links_snoc)
  qed
  have right: "links ?s n ys L"
  proof (cases ys)
    case Nil
    with it have "it = L" by simp
    with new Nil show ?thesis by simp
  next
    case (Cons y ys')
    with it have ity: "it = y" by simp
    have "links s y ys' L" using l Cons by (auto simp: links_append)
    moreover have "links ?s y ys' L = links s y ys' L"
    proof (rule links_frame)
      show "\<forall>a\<in>set (y # ys'). nxt ?s a = nxt s a"
      proof
        fix a assume "a \<in> set (y # ys')"
        then have "a \<noteq> n" "a \<noteq> ?l" using d n Cons by (cases xs rule: rev_cases; auto)+
        then show "nxt ?s a = nxt s a" by (rule nx)
      qed
      show "\<forall>b\<in>set (ys' @ [L]). prv ?s b = prv s b"
      proof
        fix b assume "b \<in> set (ys' @ [L])"
        then have "b \<noteq> n" "b \<noteq> it" using d n Cons ity by auto
        then show "prv ?s b = prv s b" by (rule px)
      qed
    qed
    moreover have "nxt ?s n = y" "prv ?s y = n" using new ity by simp_all
    ultimately show ?thesis using Cons by simp
  qed
  from left right d n show ?thesis by (auto simp: is_list_def links_append)
qed

lemma stack_frame: "(\<And>h. hprev (holders s' h) = hprev (holders s h)) \<Longrightarrow> stack s' t hs = stack s t hs"
  by (induction hs arbitrary: t) auto

lemma stack_unchanged [simp]:
  "stack (set_current h c s) = stack s" "stack (set_hsig h x s) = stack s"
  "stack (set_next a b s) = stack s" "stack (set_prev a b s) = stack s"
  "stack (set_sig a y s) = stack s" "stack (set_slot a z s) = stack s"
  "stack (set_tail a t s) = stack s" "stack (s\<lparr>log := l\<rparr>) = stack s"
  by (rule ext, rule ext, rule stack_frame, simp)+

section \<open>The holders of a signal\<close>

lemma state_holders_cong: "H = H' \<Longrightarrow> s\<lparr>holders := H\<rparr> = s\<lparr>holders := H'\<rparr>"
  by simp

lemma steered_hit:
  "current (holders s h) = c \<Longrightarrow> steered c hs (set_current h (nxt s c) s) = steered c (h # hs) s"
  unfolding steered_def set_current_def
  apply simp
  apply (rule state_holders_cong)
  apply (rule ext)
  apply auto
  done

lemma steered_miss:
  "current (holders s h) \<noteq> c \<Longrightarrow> steered c hs s = steered c (h # hs) s"
  unfolding steered_def
  apply (rule state_holders_cong)
  apply (rule ext)
  apply auto
  done


lemma steer_stack: "stack s t hs \<Longrightarrow> steer c t s = Some (steered c hs s)"
proof (induction hs arbitrary: t s)
  case Nil
  then show ?case by (subst steer.simps) (simp add: steered_def)
next
  case (Cons h hs)
  then have t: "t = Some h" and st: "stack s (hprev (holders s h)) hs" by simp_all
  show ?case
  proof (cases "current (holders s h) = c")
    case True
    have "steer c t s = steer c (hprev (holders s h)) (set_current h (nxt s c) s)"
      using t True by (subst steer.simps) (simp add: Let_def)
    also have "\<dots> = Some (steered c hs (set_current h (nxt s c) s))"
      using st by (intro Cons.IH) simp
    finally show ?thesis using steered_hit [OF True, of hs] by simp
  next
    case False
    have "steer c t s = steer c (hprev (holders s h)) s"
      using t False by (subst steer.simps) (auto simp: Let_def)
    also have "\<dots> = Some (steered c hs s)"
      using st by (rule Cons.IH)
    finally show ?thesis using steered_miss [OF False, of hs] by simp
  qed
qed

section \<open>Callables that record\<close>

lemma links_cong: "nxt s' = nxt s \<Longrightarrow> prv s' = prv s \<Longrightarrow> links s' p xs q = links s p xs q"
  by (rule links_frame) simp_all

lemma links_unchanged [simp]:
  "links (set_current h c s) = links s" "links (set_hsig h x s) = links s"
  "links (set_sig a y s) = links s" "links (set_slot a z s) = links s"
  "links (set_tail a t s) = links s" "links (s\<lparr>log := l\<rparr>) = links s"
  "links (s\<lparr>holders := H\<rparr>) = links s"
  by (rule ext, rule ext, rule ext, rule links_cong, simp, simp)+

lemma is_list_unchanged [simp]:
  "is_list (set_current h c s) = is_list s" "is_list (set_hsig h x s) = is_list s"
  "is_list (set_sig a y s) = is_list s" "is_list (set_slot a z s) = is_list s"
  "is_list (set_tail a t s) = is_list s" "is_list (s\<lparr>log := l\<rparr>) = is_list s"
  "is_list (s\<lparr>holders := H\<rparr>) = is_list s"
  by (simp_all add: is_list_def fun_eq_iff)

lemma run_logs:
  "run em a (map Log ts) s = Some (Returned, s\<lparr>log := log s @ map (\<lambda>t. (t, a)) ts\<rparr>)"
  by (induction ts arbitrary: s) simp_all

lemma recorded_simps [simp]:
  "recorded a tg [] = []"
  "recorded a tg (c # cs) = map (\<lambda>t. (t, a)) (tg c) @ recorded a tg cs"
  "recorded a tg (xs @ ys) = recorded a tg xs @ recorded a tg ys"
  by (simp_all add: recorded_def)

lemma dispatch_loggers:
  assumes "links s p pre q" "S \<notin> set pre"
    "\<forall>c\<in>set pre. slot s c = Some (map Log (tg c))"
    "current (holders s d) = hd (pre @ [q])" "hsig (holders s d) \<noteq> None"
  shows "dispatch em (length pre + k) d S a s =
         dispatch em k d S a
           (s\<lparr>holders := (holders s)(d := (holders s d)\<lparr>current := q\<rparr>),
              log := log s @ recorded a tg pre\<rparr>)"
  using assms
proof (induction pre arbitrary: s p)
  case Nil
  have "(holders s)(d := (holders s d)\<lparr>current := q\<rparr>) = holders s"
    using Nil by (simp add: fun_eq_iff)
  then show ?case by simp
next
  case (Cons c pre)
  let ?s1 = "set_current d (nxt s c) s"
  let ?s2 = "?s1\<lparr>log := log s @ map (\<lambda>t. (t, a)) (tg c)\<rparr>"
  have cur: "current (holders s d) = c" "c \<noteq> S" and l: "links s c pre q"
    using Cons.prems by auto
  have inv: "invoke em c a ?s1 = Some (Returned, ?s2)"
    using Cons.prems by (simp add: invoke_def run_logs)
  have step: "dispatch em (length (c # pre) + k) d S a s = dispatch em (length pre + k) d S a ?s2"
    using cur inv Cons.prems(5) by (auto simp: list_end_def Let_def)
  have ih: "dispatch em (length pre + k) d S a ?s2 =
        dispatch em k d S a
          (?s2\<lparr>holders := (holders ?s2)(d := (holders ?s2 d)\<lparr>current := q\<rparr>),
               log := log ?s2 @ recorded a tg pre\<rparr>)"
  proof (rule Cons.IH)
    show "links ?s2 c pre q" using l by simp
    show "S \<notin> set pre" using Cons.prems by simp
    show "\<forall>c\<in>set pre. slot ?s2 c = Some (map Log (tg c))" using Cons.prems by simp
    show "current (holders ?s2 d) = hd (pre @ [q])" using links_hd [OF l] by simp
    show "hsig (holders ?s2 d) \<noteq> None" using Cons.prems by simp
  qed
  have eq: "?s2\<lparr>holders := (holders ?s2)(d := (holders ?s2 d)\<lparr>current := q\<rparr>),
               log := log ?s2 @ recorded a tg pre\<rparr>
            = s\<lparr>holders := (holders s)(d := (holders s d)\<lparr>current := q\<rparr>),
               log := log s @ recorded a tg (c # pre)\<rparr>"
    by (simp add: set_current_def)
  show ?case by (simp only: step ih eq)
qed

section \<open>\<open>connect\<close> appends at the tail\<close>

lemma node_ops_keep [simp]:
  "sig (quite_remove c s) = sig s" "slot (quite_remove c s) = slot s"
  "tail (quite_remove c s) = tail s" "holders (quite_remove c s) = holders s"
  "log (quite_remove c s) = log s"
  "sig (remove c s) = sig s" "slot (remove c s) = slot s"
  "tail (remove c s) = tail s" "holders (remove c s) = holders s"
  "log (remove c s) = log s"
  "sig (update c s) = sig s" "slot (update c s) = slot s"
  "tail (update c s) = tail s" "holders (update c s) = holders s"
  "log (update c s) = log s"
  "sig (node_ctor c s) = sig s" "slot (node_ctor c s) = slot s"
  "tail (node_ctor c s) = tail s" "holders (node_ctor c s) = holders s"
  "log (node_ctor c s) = log s"
  by (simp_all add: quite_remove_def remove_def update_def node_ctor_def Let_def)

lemma insert_node_keeps [simp]:
  "sig (insert_node it n s) = sig s" "slot (insert_node it n s) = slot s"
  "tail (insert_node it n s) = tail s" "holders (insert_node it n s) = holders s"
  "log (insert_node it n s) = log s"
  by (simp_all add: insert_node_def Let_def)

lemma nxt_node_ctor [simp]: "nxt (node_ctor c s) = (nxt s)(c := c)"
  by (simp add: node_ctor_def fun_eq_iff)

lemma prv_node_ctor [simp]: "prv (node_ctor c s) = (prv s)(c := c)"
  by (simp add: node_ctor_def fun_eq_iff)

lemma is_list_frame:
  "\<forall>a\<in>set (L # cs). nxt s' a = nxt s a \<and> prv s' a = prv s a \<Longrightarrow> is_list s' L cs = is_list s L cs"
  unfolding is_list_def by (simp add: links_frame [of L cs s' s L])

lemma is_list_push_back:
  assumes "is_list s L cs" "n \<notin> set (L # cs)" "empty_node s n"
  shows "is_list (push_back L n s) L (cs @ [n])"
  using is_list_insert_at [of s L cs "[]" n L] assms by (simp add: push_back_def list_end_def)

lemma connect_appends:
  assumes "is_list s S cs" "c \<notin> set (S # cs)"
  shows "is_list (connect S f c s) S (cs @ [c])"
    and "slot (connect S f c s) = (slot s)(c := f)"
    and "sig (connect S f c s) = (sig s)(c := Some S)"
    and "tail (connect S f c s) = tail s" and "holders (connect S f c s) = holders s"
    and "log (connect S f c s) = log s"
proof -
  let ?s1 = "set_sig c (Some S) (set_slot c f (node_ctor c s))"
  have "is_list (node_ctor c s) S cs = is_list s S cs"
    using assms(2) by (intro is_list_frame) auto
  then have "is_list ?s1 S cs" using assms(1) by simp
  moreover have "empty_node ?s1 c" by (simp add: empty_node_def)
  ultimately show "is_list (connect S f c s) S (cs @ [c])"
    unfolding connect_def connection_ctor_def using assms(2) by (intro is_list_push_back)
qed (simp_all add: connect_def connection_ctor_def push_back_def)

lemma connect_loggers_appends:
  assumes "is_list s S cs" "distinct (S # cs @ new)"
  shows "is_list (connect_loggers S tg new s) S (cs @ new)
         \<and> (\<forall>c\<in>set new. slot (connect_loggers S tg new s) c = Some (map Log (tg c)))
         \<and> (\<forall>c. c \<notin> set new \<longrightarrow> slot (connect_loggers S tg new s) c = slot s c)
         \<and> tail (connect_loggers S tg new s) = tail s
         \<and> holders (connect_loggers S tg new s) = holders s
         \<and> log (connect_loggers S tg new s) = log s"
  using assms
proof (induction new arbitrary: s cs)
  case Nil
  then show ?case by simp
next
  case (Cons c new)
  let ?s = "connect S (Some (map Log (tg c))) c s"
  have c: "c \<notin> set (S # cs)" using Cons.prems by auto
  note ca = connect_appends [OF Cons.prems(1) c, of "Some (map Log (tg c))"]
  have "distinct (S # (cs @ [c]) @ new)" using Cons.prems by auto
  from Cons.IH [OF ca(1) this] Cons.prems(2) show ?case
    by (auto simp: ca)
qed

lemma emit_loggers:
  assumes "is_list s S cs" "\<forall>c\<in>set cs. slot s c = Some (map Log (tg c))" "length cs < n"
  shows "emit n d S a s =
         Some (Returned,
               s\<lparr>holders := (holders s)(d := \<lparr>hprev = tail s S, current = S, hsig = None\<rparr>),
                  log := log s @ recorded a tg cs\<rparr>)"
proof -
  obtain m where n: "n = Suc m" using assms(3) by (cases n) auto
  obtain k where m: "Suc m = length cs + Suc k" using assms(3) n
    by (metis Suc_leI add_Suc_right le_Suc_ex less_Suc_eq_le)
  let ?s0 = "holder_ctor d S s"
  let ?s1 = "?s0\<lparr>holders := (holders ?s0)(d := (holders ?s0 d)\<lparr>current := S\<rparr>),
                 log := log ?s0 @ recorded a tg cs\<rparr>"
  from assms have l: "links s S cs S" and d: "S \<notin> set cs" by (auto simp: is_list_def)
  have "dispatch (emit m (Suc d)) (length cs + Suc k) d S a ?s0
        = dispatch (emit m (Suc d)) (Suc k) d S a ?s1"
  proof (rule dispatch_loggers)
    show "links ?s0 S cs S" using l by (simp add: holder_ctor_def)
    show "S \<notin> set cs" by (rule d)
    show "\<forall>c\<in>set cs. slot ?s0 c = Some (map Log (tg c))"
      using assms(2) by (simp add: holder_ctor_def)
    show "current (holders ?s0 d) = hd (cs @ [S])"
      using links_hd [OF l] by (simp add: holder_ctor_def list_begin_def)
    show "hsig (holders ?s0 d) \<noteq> None" by (simp add: holder_ctor_def)
  qed
  also have "\<dots> = Some (Returned, ?s1)" by (simp add: list_end_def)
  finally have disp:
    "dispatch (emit m (Suc d)) (length cs + Suc k) d S a ?s0 = Some (Returned, ?s1)" .
  have dt: "holder_dtor d ?s1 =
     s\<lparr>holders := (holders s)(d := \<lparr>hprev = tail s S, current = S, hsig = None\<rparr>),
       log := log s @ recorded a tg cs\<rparr>"
    by (simp add: holder_dtor_def holder_ctor_def store_defs)
  have "emit n d S a s =
        (case dispatch (emit m (Suc d)) (length cs + Suc k) d S a ?s0 of
           None \<Rightarrow> None | Some (r, s1) \<Rightarrow> Some (r, holder_dtor d s1))"
    by (subst n, subst emit.simps(2), subst m) (rule refl)
  also have "\<dots> = Some (Returned, holder_dtor d ?s1)"
    by (simp only: disp option.case prod.case)
  finally show ?thesis by (simp only: dt)
qed

section \<open>One iteration of the dispatch loop\<close>

lemma run_append:
  "run em a (xs @ ys) s =
     (case run em a xs s of
        None \<Rightarrow> None
      | Some (Thrown, s1) \<Rightarrow> Some (Thrown, s1)
      | Some (Returned, s1) \<Rightarrow> run em a ys s1)"
  by (induction xs arbitrary: s) (auto split: option.splits outcome.splits)

lemma run_logs_then:
  "run em a (map Log ts @ x # ys) s =
     (case exec em a x (s\<lparr>log := log s @ map (\<lambda>t. (t, a)) ts\<rparr>) of
        None \<Rightarrow> None
      | Some (Thrown, s1) \<Rightarrow> Some (Thrown, s1)
      | Some (Returned, s1) \<Rightarrow> run em a ys s1)"
  by (simp add: run_append run_logs)

lemma dispatch_step:
  assumes "current (holders s d) = c" "c \<noteq> S"
    "invoke em c a (set_current d (nxt s c) s) = Some (Returned, s2)"
    "hsig (holders s2 d) \<noteq> None"
  shows "dispatch em (Suc k) d S a s = dispatch em k d S a s2"
  using assms by (auto simp: list_end_def Let_def)

lemma dispatch_throw:
  assumes "current (holders s d) = c" "c \<noteq> S"
    "invoke em c a (set_current d (nxt s c) s) = Some (Thrown, s2)"
  shows "dispatch em (Suc k) d S a s = Some (Thrown, s2)"
  using assms by (auto simp: list_end_def Let_def)

lemma dispatch_destroyed:
  assumes "current (holders s d) = c" "c \<noteq> S"
    "invoke em c a (set_current d (nxt s c) s) = Some (Returned, s2)"
    "hsig (holders s2 d) = None"
  shows "dispatch em (Suc k) d S a s = Some (Returned, s2)"
  using assms by (auto simp: list_end_def Let_def)

lemma dispatch_end:
  "current (holders s d) = S \<Longrightarrow> dispatch em (Suc k) d S a s = Some (Returned, s)"
  by (simp add: list_end_def)

lemma emit_unfold:
  "emit (Suc m) d S a s =
     (case dispatch (emit m (Suc d)) (Suc m) d S a (holder_ctor d S s) of
        None \<Rightarrow> None
      | Some (r, s1) \<Rightarrow> Some (r, holder_dtor d s1))"
  by simp

lemma holder_ctor_reads [simp]:
  "nxt (holder_ctor d S s) = nxt s" "prv (holder_ctor d S s) = prv s"
  "slot (holder_ctor d S s) = slot s" "sig (holder_ctor d S s) = sig s"
  "log (holder_ctor d S s) = log s"
  "tail (holder_ctor d S s) = (tail s)(S := Some d)"
  "holders (holder_ctor d S s) =
     (holders s)(d := \<lparr>hprev = tail s S, current = nxt s S, hsig = Some S\<rparr>)"
  "links (holder_ctor d S s) = links s" "is_list (holder_ctor d S s) = is_list s"
  by (simp_all add: holder_ctor_def list_begin_def fun_eq_iff)

lemma holder_dtor_reads:
  "nxt (holder_dtor d s) = nxt s" "prv (holder_dtor d s) = prv s"
  "slot (holder_dtor d s) = slot s" "sig (holder_dtor d s) = sig s"
  "log (holder_dtor d s) = log s"
  "links (holder_dtor d s) = links s" "is_list (holder_dtor d s) = is_list s"
  by (simp_all add: holder_dtor_def split: option.splits)

lemma tail_holder_dtor:
  "hsig (holders s d) = Some S \<Longrightarrow> tail (holder_dtor d s) = (tail s)(S := hprev (holders s d))"
  by (simp add: holder_dtor_def)

lemma connect_reads [simp]:
  "slot (connect S f c s) = (slot s)(c := f)" "sig (connect S f c s) = (sig s)(c := Some S)"
  "tail (connect S f c s) = tail s" "holders (connect S f c s) = holders s"
  "log (connect S f c s) = log s"
  by (simp_all add: connect_def connection_ctor_def push_back_def)

lemma emit_from_dispatch:
  assumes "dispatch (emit m (Suc d)) (Suc m) d S a (holder_ctor d S s) = Some (r, s1)"
  shows "emit (Suc m) d S a s = Some (r, holder_dtor d s1)"
  using assms by (simp add: emit_unfold)

declare dispatch.simps [simp del] emit.simps [simp del]

section \<open>Disconnecting during an emission\<close>

lemma steered_reads [simp]:
  "nxt (steered c hs s) = nxt s" "prv (steered c hs s) = prv s"
  "slot (steered c hs s) = slot s" "sig (steered c hs s) = sig s"
  "tail (steered c hs s) = tail s" "log (steered c hs s) = log s"
  "links (steered c hs s) = links s" "is_list (steered c hs s) = is_list s"
  by (simp_all add: steered_def)

lemma holders_steered:
  "holders (steered c hs s) h =
     (if h \<in> set hs \<and> current (holders s h) = c
      then (holders s h)\<lparr>current := nxt s c\<rparr> else holders s h)"
  by (simp add: steered_def)

lemma stack_steered [simp]: "stack (steered c hs s) = stack s"
  by (rule ext, rule ext, rule stack_frame) (simp add: holders_steered)

lemma disconnect_linked:
  assumes "sig s c = Some S" "stack s (tail s S) hs"
  shows "disconnect c s = Some (set_sig c None (remove c (steered c hs s)))"
  using assms by (simp add: disconnect_def steer_stack)

lemma stack_remove [simp]: "stack (remove c s) = stack s"
  by (rule ext, rule ext, rule stack_frame) simp

lemma run_logs2:
  "run em a (map Log ts @ map Log us) s =
     Some (Returned, s\<lparr>log := log s @ map (\<lambda>t. (t, a)) ts @ map (\<lambda>t. (t, a)) us\<rparr>)"
  using run_logs [of em a "ts @ us" s] by simp

lemma hd_snoc_in: "hd (ys @ [q]) \<in> set (ys @ [q])"
  by (cases ys) auto

lemma dispatch_self_disconnect:
  assumes "is_list s S (xs @ rest)"
    "\<forall>c\<in>set rest. sig s c = Some S \<and>
        slot s c = Some (if dc c then map Log (t1 c) @ Disconnect c # map Log (t2 c)
                         else map Log (t1 c @ t2 c))"
    "stack s (tail s S) (d # hs)" "current (holders s d) = hd (rest @ [S])"
    "hsig (holders s d) = Some S" "length rest < k"
  shows "\<exists>s'. dispatch em k d S a s = Some (Returned, s')
           \<and> log s' = log s @ recorded a (\<lambda>c. t1 c @ t2 c) rest
           \<and> is_list s' S (xs @ filter (\<lambda>c. \<not> dc c) rest)
           \<and> (\<forall>c\<in>set rest. dc c \<longrightarrow> sig s' c = None \<and> empty_node s' c)
           \<and> tail s' = tail s \<and> hsig (holders s' d) = Some S
           \<and> hprev (holders s' d) = hprev (holders s d)
           \<and> (\<forall>x. x \<notin> set (S # xs @ rest) \<longrightarrow> nxt s' x = nxt s x \<and> prv s' x = prv s x)
           \<and> (\<forall>x. x \<notin> set rest \<longrightarrow> sig s' x = sig s x)"
  using assms
proof (induction rest arbitrary: s xs k)
  case Nil
  then obtain k' where k: "k = Suc k'" by (cases k) auto
  have "dispatch em k d S a s = Some (Returned, s)"
    unfolding k using Nil.prems(4) by (intro dispatch_end) simp
  with Nil show ?case by simp
next
  case (Cons c rest)
  obtain k' where k: "k = Suc k'" and k': "length rest < k'"
    using Cons.prems(6) by (cases k) auto
  from Cons.prems(1) have l2: "links s c rest S" and dist: "distinct (S # xs @ c # rest)"
    by (auto simp: is_list_def links_append)
  have nc: "nxt s c = hd (rest @ [S])" by (rule links_hd [OF l2])
  have ncc: "nxt s c \<noteq> c" using hd_snoc_in [of rest S] dist unfolding nc by auto
  have cur: "current (holders s d) = c" "c \<noteq> S" using Cons.prems(4) dist by auto
  let ?s1 = "set_current d (nxt s c) s"
  show ?case
  proof (cases "dc c")
    case False
    define s2 where "s2 = ?s1\<lparr>log := log ?s1 @ map (\<lambda>t. (t, a)) (t1 c @ t2 c)\<rparr>"
    have inv: "invoke em c a ?s1 = Some (Returned, s2)"
      using Cons.prems(2) False by (simp add: invoke_def run_logs2 s2_def)
    have step: "dispatch em k d S a s = dispatch em k' d S a s2"
      unfolding k using cur inv by (rule dispatch_step) (simp add: s2_def Cons.prems)
    have "\<exists>s'. dispatch em k' d S a s2 = Some (Returned, s')
           \<and> log s' = log s2 @ recorded a (\<lambda>c. t1 c @ t2 c) rest
           \<and> is_list s' S ((xs @ [c]) @ filter (\<lambda>c. \<not> dc c) rest)
           \<and> (\<forall>c\<in>set rest. dc c \<longrightarrow> sig s' c = None \<and> empty_node s' c)
           \<and> tail s' = tail s2 \<and> hsig (holders s' d) = Some S
           \<and> hprev (holders s' d) = hprev (holders s2 d)
           \<and> (\<forall>x. x \<notin> set (S # (xs @ [c]) @ rest) \<longrightarrow> nxt s' x = nxt s2 x \<and> prv s' x = prv s2 x)
           \<and> (\<forall>x. x \<notin> set rest \<longrightarrow> sig s' x = sig s2 x)"
    proof (rule Cons.IH)
      show "is_list s2 S ((xs @ [c]) @ rest)" using Cons.prems(1) by (simp add: s2_def)
      show "\<forall>c\<in>set rest. sig s2 c = Some S \<and>
          slot s2 c = Some (if dc c then map Log (t1 c) @ Disconnect c # map Log (t2 c)
                            else map Log (t1 c @ t2 c))"
        using Cons.prems(2) by (simp add: s2_def)
      show "stack s2 (tail s2 S) (d # hs)" using Cons.prems(3) by (simp add: s2_def)
      show "current (holders s2 d) = hd (rest @ [S])" using nc by (simp add: s2_def)
      show "hsig (holders s2 d) = Some S" using Cons.prems(5) by (simp add: s2_def)
      show "length rest < k'" by (rule k')
    qed
    then obtain s' where s': "dispatch em k' d S a s2 = Some (Returned, s')"
      "log s' = log s2 @ recorded a (\<lambda>c. t1 c @ t2 c) rest"
      "is_list s' S ((xs @ [c]) @ filter (\<lambda>c. \<not> dc c) rest)"
      "\<forall>c\<in>set rest. dc c \<longrightarrow> sig s' c = None \<and> empty_node s' c"
      "tail s' = tail s2" "hsig (holders s' d) = Some S"
      "hprev (holders s' d) = hprev (holders s2 d)"
      "\<forall>x. x \<notin> set (S # (xs @ [c]) @ rest) \<longrightarrow> nxt s' x = nxt s2 x \<and> prv s' x = prv s2 x"
      "\<forall>x. x \<notin> set rest \<longrightarrow> sig s' x = sig s2 x"
      by blast
    show ?thesis
      by (rule exI [of _ s']) (use s' step False in \<open>simp add: s2_def\<close>)
  next
    case True
    define sB where "sB = ?s1\<lparr>log := log ?s1 @ map (\<lambda>t. (t, a)) (t1 c)\<rparr>"
    define sC where "sC = set_sig c None (remove c (steered c (d # hs) sB))"
    define s2 where "s2 = sC\<lparr>log := log sC @ map (\<lambda>t. (t, a)) (t2 c)\<rparr>"
    have "sig sB c = Some S" "stack sB (tail sB S) (d # hs)"
      using Cons.prems(2,3) by (simp_all add: sB_def)
    then have dis: "disconnect c sB = Some sC"
      unfolding sC_def by (rule disconnect_linked)
    have inv: "invoke em c a ?s1 = Some (Returned, s2)"
      using Cons.prems(2) True dis
      by (simp add: invoke_def run_logs_then run_logs returned_def s2_def sB_def)
    have hd: "holders sC d = holders sB d"
      using ncc by (simp add: sC_def holders_steered sB_def)
    have step: "dispatch em k d S a s = dispatch em k' d S a s2"
      unfolding k using cur inv
      by (rule dispatch_step) (simp add: s2_def hd, simp add: sB_def Cons.prems)
    have lC: "is_list sC S (xs @ rest)"
      unfolding sC_def using Cons.prems(1) is_list_remove [of "steered c (d # hs) sB" S xs c rest]
      by (simp add: sB_def)
    have eC: "empty_node sC c" by (simp add: sC_def empty_node_def nxt_remove prv_remove)
    have "\<exists>s'. dispatch em k' d S a s2 = Some (Returned, s')
           \<and> log s' = log s2 @ recorded a (\<lambda>c. t1 c @ t2 c) rest
           \<and> is_list s' S (xs @ filter (\<lambda>c. \<not> dc c) rest)
           \<and> (\<forall>c\<in>set rest. dc c \<longrightarrow> sig s' c = None \<and> empty_node s' c)
           \<and> tail s' = tail s2 \<and> hsig (holders s' d) = Some S
           \<and> hprev (holders s' d) = hprev (holders s2 d)
           \<and> (\<forall>x. x \<notin> set (S # xs @ rest) \<longrightarrow> nxt s' x = nxt s2 x \<and> prv s' x = prv s2 x)
           \<and> (\<forall>x. x \<notin> set rest \<longrightarrow> sig s' x = sig s2 x)"
    proof (rule Cons.IH)
      show "is_list s2 S (xs @ rest)" using lC by (simp add: s2_def)
      show "\<forall>c\<in>set rest. sig s2 c = Some S \<and>
          slot s2 c = Some (if dc c then map Log (t1 c) @ Disconnect c # map Log (t2 c)
                            else map Log (t1 c @ t2 c))"
        using Cons.prems(2) dist by (auto simp: s2_def sC_def sB_def)
      show "stack s2 (tail s2 S) (d # hs)"
        using Cons.prems(3) by (simp add: s2_def sC_def sB_def)
      show "current (holders s2 d) = hd (rest @ [S])"
        using nc by (simp add: s2_def hd) (simp add: sB_def)
      show "hsig (holders s2 d) = Some S"
        using Cons.prems(5) by (simp add: s2_def hd) (simp add: sB_def)
      show "length rest < k'" by (rule k')
    qed
    then obtain s' where s': "dispatch em k' d S a s2 = Some (Returned, s')"
      "log s' = log s2 @ recorded a (\<lambda>c. t1 c @ t2 c) rest"
      "is_list s' S (xs @ filter (\<lambda>c. \<not> dc c) rest)"
      "\<forall>c\<in>set rest. dc c \<longrightarrow> sig s' c = None \<and> empty_node s' c"
      "tail s' = tail s2" "hsig (holders s' d) = Some S"
      "hprev (holders s' d) = hprev (holders s2 d)"
      "\<forall>x. x \<notin> set (S # xs @ rest) \<longrightarrow> nxt s' x = nxt s2 x \<and> prv s' x = prv s2 x"
      "\<forall>x. x \<notin> set rest \<longrightarrow> sig s' x = sig s2 x"
      by blast
    have cout: "c \<notin> set (S # xs @ rest)" "c \<notin> set rest" using dist by auto
    have c': "sig s' c = None" "empty_node s' c"
      using s'(8,9) cout eC by (simp_all add: empty_node_def s2_def) (simp add: sC_def)
    have fr: "\<forall>x. x \<notin> set (S # xs @ c # rest) \<longrightarrow> nxt s2 x = nxt s x \<and> prv s2 x = prv s x"
    proof (intro allI impI)
      fix x assume x: "x \<notin> set (S # xs @ c # rest)"
      have "prv s c \<in> set (S # xs)" "nxt s c \<in> set (rest @ [S])"
        using Cons.prems(1) nc hd_snoc_in [of rest S]
        by (auto simp: is_list_def links_append dest!: links_last)
      with x show "nxt s2 x = nxt s x \<and> prv s2 x = prv s x"
        by (auto simp: s2_def sC_def sB_def nxt_remove prv_remove)
    qed
    have s2f: "log s2 = log s @ map (\<lambda>t. (t, a)) (t1 c) @ map (\<lambda>t. (t, a)) (t2 c)"
      "tail s2 = tail s" "hprev (holders s2 d) = hprev (holders s d)"
      "\<forall>x. x \<noteq> c \<longrightarrow> sig s2 x = sig s x"
      by (simp_all add: s2_def hd) (simp_all add: sC_def sB_def)
    show ?thesis
      by (rule exI [of _ s']) (use s' step True c' fr s2f in auto)
  qed
qed

lemma stack_holders_upd:
  "d \<notin> set hs \<Longrightarrow> stack (s\<lparr>holders := (holders s)(d := x)\<rparr>) t hs = stack s t hs"
  by (induction hs arbitrary: t) auto

lemma stack_holder_ctor:
  "stack s (tail s S) hs \<Longrightarrow> d \<notin> set hs
   \<Longrightarrow> stack (holder_ctor d S s) (tail (holder_ctor d S s) S) (d # hs)"
  by (simp add: holder_ctor_def stack_holders_upd)

section \<open>Move construction of a connection\<close>

lemma update_idle: "empty_node s c \<Longrightarrow> nxt (update c s) = nxt s \<and> prv (update c s) = prv s"
  by (auto simp: nxt_update prv_update empty_node_def fun_eq_iff)

lemma is_list_node_ctor:
  "c \<notin> set (L # cs) \<Longrightarrow> is_list (node_ctor c s) L cs = is_list s L cs"
  by (intro is_list_frame) auto

lemma is_list_cong: "nxt s' = nxt s \<Longrightarrow> prv s' = prv s \<Longrightarrow> is_list s' L cs = is_list s L cs"
  unfolding is_list_def using links_cong [of s' s L cs L] by simp

lemma stack_node_ops [simp]:
  "stack (update c s) = stack s" "stack (node_ctor c s) = stack s"
  "stack (insert_node it c s) = stack s"
  by (rule ext, rule ext, rule stack_frame, simp)+

lemma connection_move_ctor_linked:
  assumes l: "is_list s S (xs @ A # ys)" and sg: "sig s A = Some S"
    and B: "B \<notin> set (S # xs @ A # ys)" and st: "stack s (tail s S) hs"
  shows "\<exists>s'. connection_move_ctor B A s = Some s' \<and> is_list s' S (xs @ B # ys)
           \<and> slot s' = (slot s)(B := slot s A, A := None)
           \<and> sig s' = (sig s)(B := Some S, A := None)
           \<and> (\<forall>h. holders s' h = (if h \<in> set hs \<and> current (holders s h) = A
                                   then (holders s h)\<lparr>current := B\<rparr> else holders s h))
           \<and> empty_node s' A \<and> tail s' = tail s \<and> log s' = log s"
proof -
  define s3 where
    "s3 = set_sig B (sig s A) (set_slot A None (set_slot B (slot s A) (node_ctor B s)))"
  define s4 where "s4 = update B s3"
  define s5 where "s5 = insert_node (nxt s4 A) B s4"
  define s6 where "s6 = set_sig A None (remove A (steered A hs s5))"
  have BA: "B \<noteq> A" using B by auto
  have e3: "empty_node s3 B" by (simp add: s3_def empty_node_def)
  have l3: "is_list s3 S (xs @ A # ys)"
    using l B by (simp add: s3_def is_list_node_ctor)
  have np4: "nxt s4 = nxt s3" "prv s4 = prv s3"
    using update_idle [OF e3] by (simp_all add: s4_def)
  have l4: "is_list s4 S ((xs @ [A]) @ ys)" using l3 is_list_cong [OF np4, of S "xs @ A # ys"] by simp
  have e4: "empty_node s4 B" using e3 np4 by (simp add: empty_node_def)
  have nA: "nxt s4 A = hd (ys @ [S])"
    using l4 by (auto simp: is_list_def links_append dest: links_hd)
  have l5: "is_list s5 S ((xs @ [A]) @ B # ys)"
    unfolding s5_def using l4 _ e4 nA by (rule is_list_insert_at) (use B in auto)
  then have nA5: "nxt s5 A = B" by (auto simp: is_list_def links_append)
  have f4: "sig s4 = (sig s)(B := Some S)" "slot s4 = (slot s)(B := slot s A, A := None)"
    "tail s4 = tail s" "holders s4 = holders s" "log s4 = log s"
    using sg by (simp_all add: s4_def s3_def)
  have f5: "sig s5 = (sig s)(B := Some S)" "slot s5 = (slot s)(B := slot s A, A := None)"
    "tail s5 = tail s" "holders s5 = holders s" "log s5 = log s"
    using f4 by (simp_all add: s5_def)
  have st5: "stack s5 (tail s5 S) hs"
    using st by (simp add: s5_def s4_def s3_def)
  have "connection_move_ctor B A s = disconnect A s5"
    using BA sg by (simp add: connection_move_ctor_def Let_def s5_def s4_def s3_def)
  also have "\<dots> = Some s6"
    unfolding s6_def using BA sg st5 by (intro disconnect_linked) (simp_all add: f5)
  finally have "connection_move_ctor B A s = Some s6" .
  moreover have "is_list s6 S (xs @ B # ys)"
    using is_list_remove [of "steered A hs s5" S xs A "B # ys"] l5 by (simp add: s6_def)
  moreover have "empty_node s6 A" by (simp add: s6_def empty_node_def nxt_remove prv_remove)
  moreover have "\<forall>h. holders s6 h = (if h \<in> set hs \<and> current (holders s h) = A
                                   then (holders s h)\<lparr>current := B\<rparr> else holders s h)"
    by (simp add: s6_def holders_steered f5 nA5)
  ultimately show ?thesis
    using BA by (intro exI [of _ s6]) (auto simp: s6_def f5 fun_eq_iff)
qed


lemma recorded_cong: "(\<And>c. c \<in> set cs \<Longrightarrow> f c = g c) \<Longrightarrow> recorded a f cs = recorded a g cs"
  by (induction cs) simp_all

section \<open>Destruction of a signal\<close>

lemma null_holders_stack:
  "stack s (tail s S) hs \<Longrightarrow>
   null_holders S s =
     Some (s\<lparr>holders := (\<lambda>h. if h \<in> set hs then (holders s h)\<lparr>hsig := None\<rparr> else holders s h),
            tail := (tail s)(S := None)\<rparr>)"
proof (induction hs arbitrary: s)
  case Nil
  then have "tail s S = None" by simp
  moreover from this have "(tail s)(S := None) = tail s" by (simp add: fun_eq_iff)
  ultimately show ?case by (subst null_holders.simps) simp
next
  case (Cons h hs)
  then have t: "tail s S = Some h" and st: "stack s (hprev (holders s h)) hs" by simp_all
  let ?s1 = "set_tail S (hprev (holders s h)) (set_hsig h None s)"
  have "stack ?s1 (tail ?s1 S) hs" using st by simp
  note ih = Cons.IH [OF this]
  have "null_holders S s = null_holders S ?s1"
    using t by (subst null_holders.simps) (simp add: Let_def)
  also note ih
  also have "?s1\<lparr>holders := (\<lambda>x. if x \<in> set hs then (holders ?s1 x)\<lparr>hsig := None\<rparr> else holders ?s1 x),
                tail := (tail ?s1)(S := None)\<rparr>
      = s\<lparr>holders := (\<lambda>x. if x \<in> set (h # hs) then (holders s x)\<lparr>hsig := None\<rparr> else holders s x),
            tail := (tail s)(S := None)\<rparr>"
    by (auto simp: store_defs fun_eq_iff intro!: state_holders_cong)
  finally show ?case .
qed

lemma null_connections_links:
  "links s p cs S \<Longrightarrow> S \<notin> set cs \<Longrightarrow> it = hd (cs @ [S]) \<Longrightarrow>
   null_connections S it s = Some (s\<lparr>sig := (\<lambda>c. if c \<in> set cs then None else sig s c)\<rparr>)"
proof (induction cs arbitrary: s p it)
  case Nil
  then show ?case by (subst null_connections.simps) (simp add: list_end_def)
next
  case (Cons c cs)
  then have it: "it = c" "c \<noteq> S" and l: "links s c cs S" by auto
  let ?s1 = "set_sig c None s"
  have "null_connections S (nxt s c) ?s1
        = Some (?s1\<lparr>sig := (\<lambda>x. if x \<in> set cs then None else sig ?s1 x)\<rparr>)"
  proof (rule Cons.IH)
    show "links ?s1 c cs S" using l by simp
    show "S \<notin> set cs" using Cons.prems by simp
    show "nxt s c = hd (cs @ [S])" by (rule links_hd [OF l])
  qed
  moreover have "null_connections S it s = null_connections S (nxt s c) ?s1"
    using it by (subst null_connections.simps) (simp add: list_end_def)
  moreover have "?s1\<lparr>sig := (\<lambda>x. if x \<in> set cs then None else sig ?s1 x)\<rparr>
      = s\<lparr>sig := (\<lambda>x. if x \<in> set (c # cs) then None else sig s x)\<rparr>"
    by (auto simp: store_defs fun_eq_iff)
  ultimately show ?case by simp
qed

lemma erase_all_list:
  "is_list s L cs \<Longrightarrow> it = hd (cs @ [L]) \<Longrightarrow>
   \<exists>s'. erase_all L it s = Some s' \<and> is_list s' L [] \<and> (\<forall>c\<in>set cs. empty_node s' c)
      \<and> (\<forall>x. x \<notin> set (L # cs) \<longrightarrow> nxt s' x = nxt s x \<and> prv s' x = prv s x)
      \<and> sig s' = sig s \<and> slot s' = slot s \<and> holders s' = holders s \<and> tail s' = tail s
      \<and> log s' = log s"
proof (induction cs arbitrary: s it)
  case Nil
  then show ?case by (subst erase_all.simps) (simp add: list_end_def)
next
  case (Cons c cs)
  then have it: "it = c" "c \<noteq> L" and l: "links s c cs L" and d: "distinct (L # c # cs)"
    by (auto simp: is_list_def)
  let ?s1 = "remove c s"
  have l1: "is_list ?s1 L cs" using is_list_remove [of s L "[]" c cs] Cons.prems(1) by simp
  have nc: "nxt s c = hd (cs @ [L])" by (rule links_hd [OF l])
  have pc: "prv s c = L" using Cons.prems(1) by (simp add: is_list_def)
  from Cons.IH [OF l1 nc] obtain s' where s': "erase_all L (nxt s c) ?s1 = Some s'"
    "is_list s' L []" "\<forall>c\<in>set cs. empty_node s' c"
    "\<forall>x. x \<notin> set (L # cs) \<longrightarrow> nxt s' x = nxt ?s1 x \<and> prv s' x = prv ?s1 x"
    "sig s' = sig ?s1" "slot s' = slot ?s1" "holders s' = holders ?s1" "tail s' = tail ?s1"
    "log s' = log ?s1"
    by blast
  have e: "erase_all L it s = Some s'"
    using it s'(1) by (subst erase_all.simps) (simp add: list_end_def erase_def)
  have "empty_node s' c"
    using s'(4) d by (simp add: empty_node_def nxt_remove prv_remove)
  moreover have "\<forall>x. x \<notin> set (L # c # cs) \<longrightarrow> nxt s' x = nxt s x \<and> prv s' x = prv s x"
  proof (intro allI impI)
    fix x assume x: "x \<notin> set (L # c # cs)"
    have "nxt s c \<in> set (cs @ [L])" unfolding nc by (rule hd_snoc_in)
    with x pc s'(4) show "nxt s' x = nxt s x \<and> prv s' x = prv s x"
      by (auto simp: nxt_remove prv_remove)
  qed
  ultimately show ?case using e s' by simp
qed

lemma remove_idle: "empty_node s c \<Longrightarrow> remove c s = s"
proof -
  assume "empty_node s c"
  then have "(nodes s c)\<lparr>prev := c, next := c\<rparr> = nodes s c"
    by (simp add: empty_node_def nxt_def prv_def)
  then have "(nodes s)(c := (nodes s c)\<lparr>prev := c, next := c\<rparr>) = nodes s"
    by (simp add: fun_eq_iff)
  with \<open>empty_node s c\<close> show ?thesis
    by (simp add: remove_def quite_remove_def store_defs)
qed


lemma signal_dtor_list:
  assumes l: "is_list s S cs" and st: "stack s (tail s S) hs"
  shows "\<exists>s'. signal_dtor S s = Some s'
     \<and> (\<forall>h. holders s' h = (if h \<in> set hs then (holders s h)\<lparr>hsig := None\<rparr> else holders s h))
     \<and> tail s' = (tail s)(S := None)
     \<and> (\<forall>c. sig s' c = (if c \<in> set cs then None else sig s c))
     \<and> (\<forall>c\<in>set cs. empty_node s' c) \<and> is_list s' S []
     \<and> slot s' = slot s \<and> log s' = log s
     \<and> (\<forall>x. x \<notin> set (S # cs) \<longrightarrow> nxt s' x = nxt s x \<and> prv s' x = prv s x)"
proof -
  define sA where
    "sA = s\<lparr>holders := (\<lambda>h. if h \<in> set hs then (holders s h)\<lparr>hsig := None\<rparr> else holders s h),
            tail := (tail s)(S := None)\<rparr>"
  define sB where "sB = sA\<lparr>sig := (\<lambda>c. if c \<in> set cs then None else sig sA c)\<rparr>"
  have a: "null_holders S s = Some sA"
    unfolding sA_def using st by (rule null_holders_stack)
  have np: "nxt sA = nxt s" "prv sA = prv s" "nxt sB = nxt s" "prv sB = prv s"
    by (simp_all add: sA_def sB_def nxt_def prv_def fun_eq_iff)
  have lA: "is_list sA S cs" and lB: "is_list sB S cs"
    using l is_list_cong [OF np(1,2)] is_list_cong [OF np(3,4)] by simp_all
  have b: "null_connections S (list_begin sA S) sA = Some sB"
    unfolding sB_def
  proof (rule null_connections_links)
    show "links sA S cs S" using lA by (simp add: is_list_def)
    show "S \<notin> set cs" using l by (simp add: is_list_def)
    show "list_begin sA S = hd (cs @ [S])"
      using lA by (simp add: list_begin_def is_list_def links_hd)
  qed
  have "list_begin sB S = hd (cs @ [S])"
    using lB by (simp add: list_begin_def is_list_def links_hd)
  from erase_all_list [OF lB this] obtain sC where c: "erase_all S (list_begin sB S) sB = Some sC"
    "is_list sC S []" "\<forall>c\<in>set cs. empty_node sC c"
    "\<forall>x. x \<notin> set (S # cs) \<longrightarrow> nxt sC x = nxt sB x \<and> prv sC x = prv sB x"
    "sig sC = sig sB" "slot sC = slot sB" "holders sC = holders sB" "tail sC = tail sB"
    "log sC = log sB"
    by blast
  have "empty_node sC S" using c(2) by (simp add: is_list_def empty_node_def)
  then have "node_dtor S sC = sC" by (simp add: node_dtor_def remove_idle)
  then have "signal_dtor S s = Some sC"
    using a b c(1) by (simp add: signal_dtor_def list_dtor_def)
  then show ?thesis
    using c np by (intro exI [of _ sC]) (simp add: sB_def sA_def)
qed

section \<open>Cursors stay in the list\<close>

text \<open>
  \<open>disconnect\<close> and the move constructor leave every cursor of the stack at a connection
  of the list or at the sentinel.
\<close>

lemma disconnect_unlinks:
  assumes l: "is_list s S (xs @ c # ys)" and sg: "sig s c = Some S"
    and st: "stack s (tail s S) hs"
    and cur: "\<forall>h\<in>set hs. current (holders s h) \<in> set (S # xs @ c # ys)"
  shows "\<exists>s'. disconnect c s = Some s' \<and> is_list s' S (xs @ ys)
           \<and> sig s' = (sig s)(c := None) \<and> empty_node s' c
           \<and> stack s' (tail s' S) hs
           \<and> (\<forall>h\<in>set hs. current (holders s' h) \<in> set (S # xs @ ys))"
proof -
  let ?s' = "set_sig c None (remove c (steered c hs s))"
  have nc: "nxt s c = hd (ys @ [S])"
    using l by (auto simp: is_list_def links_append dest: links_hd)
  have "nxt s c \<in> set (S # xs @ ys)" using hd_snoc_in [of ys S] unfolding nc by auto
  then have "\<forall>h\<in>set hs. current (holders ?s' h) \<in> set (S # xs @ ys)"
    using cur by (auto simp: holders_steered)
  moreover have "disconnect c s = Some ?s'" using sg st by (rule disconnect_linked)
  moreover have "is_list ?s' S (xs @ ys)"
    using is_list_remove [of "steered c hs s" S xs c ys] l by simp
  moreover have "empty_node ?s' c" by (simp add: empty_node_def nxt_remove prv_remove)
  moreover have "stack ?s' (tail ?s' S) hs" using st by simp
  ultimately show ?thesis by (intro exI [of _ ?s']) simp
qed

lemma move_ctor_keeps_cursors:
  assumes l: "is_list s S (xs @ A # ys)" and sg: "sig s A = Some S"
    and B: "B \<notin> set (S # xs @ A # ys)" and st: "stack s (tail s S) hs"
    and cur: "\<forall>h\<in>set hs. current (holders s h) \<in> set (S # xs @ A # ys)"
  shows "\<exists>s'. connection_move_ctor B A s = Some s' \<and> is_list s' S (xs @ B # ys)
           \<and> (\<forall>h\<in>set hs. current (holders s' h) \<in> set (S # xs @ B # ys))"
proof -
  from connection_move_ctor_linked [OF l sg B st] obtain s' where
    s': "connection_move_ctor B A s = Some s'" "is_list s' S (xs @ B # ys)"
    "\<forall>h. holders s' h = (if h \<in> set hs \<and> current (holders s h) = A
                           then (holders s h)\<lparr>current := B\<rparr> else holders s h)"
    by blast
  have "\<forall>h\<in>set hs. current (holders s' h) \<in> set (S # xs @ B # ys)"
    using cur s'(3) by auto
  with s'(1,2) show ?thesis by blast
qed

section \<open>Moving a node\<close>

text \<open>
  The move constructor puts the new node in the place of the source. Move assignment does
  so when the destination is not a neighbour of the source (and is itself idle or linked
  with reciprocal links).
\<close>

lemma node_move_ctor_transfers:
  assumes "between s X A Y" "A \<noteq> X" "B \<notin> {A, X, Y}"
  shows "between (node_move_ctor B A s) X B Y \<and> empty_node (node_move_ctor B A s) A"
  using assms
  by (auto simp: between_def node_move_ctor_def empty_node_def quite_remove_def Let_def
      nxt_update prv_update)

lemma node_move_ctor_idle:
  assumes "empty_node s A" "B \<noteq> A"
  shows "empty_node (node_move_ctor B A s) A \<and> empty_node (node_move_ctor B A s) B"
  using assms by (auto simp: node_move_ctor_def empty_node_def quite_remove_def)

lemma nxt_swap_fields [simp]:
  "nxt (swap_prev a b s) = nxt s" "prv (swap_next a b s) = prv s"
  "nxt (swap_next a b s) = (nxt s)(a := nxt s b, b := nxt s a)"
  "prv (swap_prev a b s) = (prv s)(a := prv s b, b := prv s a)"
  by (auto simp: swap_prev_def swap_next_def Let_def fun_eq_iff)

lemma nxt_quite_remove [simp]:
  "nxt (quite_remove c s) = (nxt s)(c := c)" "prv (quite_remove c s) = (prv s)(c := c)"
  by (auto simp: quite_remove_def fun_eq_iff)

lemma node_swap_linked:
  assumes "a \<noteq> b" "nxt s a \<notin> {a, b}" "prv s a \<notin> {a, b}" "nxt s b \<notin> {a, b}" "prv s b \<notin> {a, b}"
  shows "nxt (node_swap a b s) = (nxt s)(a := nxt s b, b := nxt s a, prv s b := a, prv s a := b)"
    and "prv (node_swap a b s) = (prv s)(a := prv s b, b := prv s a, nxt s b := a, nxt s a := b)"
proof -
  have e: "\<not> empty_node s a" "\<not> empty_node s b" using assms by (auto simp: empty_node_def)
  have "node_swap a b s = update b (update a (swap_next a b (swap_prev a b s)))"
    using e by (simp add: node_swap_def Let_def)
  then show "nxt (node_swap a b s) = (nxt s)(a := nxt s b, b := nxt s a, prv s b := a, prv s a := b)"
    and "prv (node_swap a b s) = (prv s)(a := prv s b, b := prv s a, nxt s b := a, nxt s a := b)"
    using assms by (simp_all add: nxt_update prv_update)
qed

lemma node_swap_into_idle:
  assumes "empty_node s b" "a \<noteq> b" "nxt s a \<notin> {a, b}" "prv s a \<notin> {a, b}"
  shows "nxt (node_swap a b s) = (nxt s)(b := nxt s a, prv s a := b, a := a)"
    and "prv (node_swap a b s) = (prv s)(b := prv s a, nxt s a := b, a := a)"
proof -
  have "\<not> empty_node s a" using assms by (auto simp: empty_node_def)
  then have "node_swap a b s =
        quite_remove a (update b (set_prev b (prv (set_next b (nxt s a) s) a) (set_next b (nxt s a) s)))"
    using assms(1) by (simp add: node_swap_def Let_def)
  then show "nxt (node_swap a b s) = (nxt s)(b := nxt s a, prv s a := b, a := a)"
    and "prv (node_swap a b s) = (prv s)(b := prv s a, nxt s a := b, a := a)"
    using assms by (auto simp: nxt_update prv_update empty_node_def fun_eq_iff)
qed

lemma node_move_ctor_linked:
  assumes "between s X A Y" "A \<noteq> X" "B \<notin> {A, X, Y}"
  shows "nxt (node_move_ctor B A s) = (nxt s)(B := Y, X := B, A := A)"
    and "prv (node_move_ctor B A s) = (prv s)(B := X, Y := B, A := A)"
  using assms
  by (auto simp: between_def node_move_ctor_def empty_node_def Let_def nxt_update prv_update
      fun_eq_iff)

lemma node_move_assign_transfers:
  assumes "between s X A Y" "A \<noteq> X" "B \<notin> {A, X, Y}"
    "tmp \<notin> {A, B, X, Y, prv s B, nxt s B}"
    "nxt s (prv s B) = B" "prv s (nxt s B) = B"
  shows "between (node_move_assign tmp B A s) X B Y \<and> empty_node (node_move_assign tmp B A s) A"
proof -
  define s1 where "s1 = node_move_ctor tmp A s"
  have tmp: "tmp \<notin> {A, X, Y}" using assms(4) by auto
  note s1 = node_move_ctor_linked [OF assms(1,2) tmp, folded s1_def]
  have AY: "A \<noteq> Y" using assms(1,2) by (auto simp: between_def)
  define s2 where "s2 = node_swap tmp B s1"
  have n1: "nxt s1 tmp = Y" "prv s1 tmp = X" "nxt s1 B = nxt s B" "prv s1 B = prv s B"
    using assms(2-4) AY by (auto simp: s1)
  have s2: "nxt s2 X = B \<and> prv s2 B = X \<and> nxt s2 B = Y \<and> prv s2 Y = B \<and> empty_node s2 A
            \<and> (empty_node s2 tmp \<or>
                (prv s2 tmp \<notin> {B, X, A} \<and> nxt s2 tmp \<notin> {B, Y, A}))"
  proof (cases "empty_node s B")
    case True
    then have e: "empty_node s1 B" using n1 by (simp add: empty_node_def)
    have c: "tmp \<noteq> B" "nxt s1 tmp \<notin> {tmp, B}" "prv s1 tmp \<notin> {tmp, B}"
      using assms(3,4) n1 by auto
    note sw = node_swap_into_idle [OF e c, folded s2_def]
    have XY: "X \<noteq> A" "Y \<noteq> A" "X \<noteq> B" "Y \<noteq> B" "X \<noteq> tmp" "Y \<noteq> tmp" "A \<noteq> B"
      "A \<noteq> tmp" "B \<noteq> tmp"
      using assms(2-4) AY by auto
    show ?thesis
      unfolding empty_node_def sw n1 using XY by (simp add: s1)
  next
    case False
    then have nb: "nxt s B \<noteq> B" "prv s B \<noteq> B" using assms(5,6) by (auto simp: empty_node_def)
    have far: "nxt s B \<noteq> A" "prv s B \<noteq> A" "nxt s B \<noteq> Y" "prv s B \<noteq> X"
      using assms(1-3,5,6) by (auto simp: between_def)
    have c: "tmp \<noteq> B" "nxt s1 tmp \<notin> {tmp, B}" "prv s1 tmp \<notin> {tmp, B}"
      "nxt s1 B \<notin> {tmp, B}" "prv s1 B \<notin> {tmp, B}"
      using assms(3,4) n1 nb by auto
    note sw = node_swap_linked [OF c, folded s2_def]
    have XY: "X \<noteq> A" "Y \<noteq> A" "X \<noteq> B" "Y \<noteq> B" "X \<noteq> tmp" "Y \<noteq> tmp" "A \<noteq> B"
      "A \<noteq> tmp" "B \<noteq> tmp" "prv s B \<noteq> tmp" "nxt s B \<noteq> tmp"
      using assms(2-4) AY by auto
    show ?thesis
      unfolding empty_node_def sw n1 using XY nb far by (simp add: s1)
  qed
  have "node_move_assign tmp B A s = remove tmp s2"
    using assms(3) by (simp add: node_move_assign_def node_dtor_def s2_def s1_def)
  moreover have "between (remove tmp s2) X B Y \<and> empty_node (remove tmp s2) A"
  proof (cases "empty_node s2 tmp")
    case True
    then show ?thesis using s2 by (simp add: remove_idle between_def)
  next
    case False
    with s2 have far: "prv s2 tmp \<notin> {B, X, A}" "nxt s2 tmp \<notin> {B, Y, A}" by blast+
    have ne: "X \<noteq> tmp" "Y \<noteq> tmp" "A \<noteq> tmp" "B \<noteq> tmp" using assms(4) by auto
    show ?thesis
      unfolding between_def empty_node_def nxt_remove prv_remove
      using s2 far ne by (auto simp: empty_node_def)
  qed
  ultimately show ?thesis by simp
qed

section \<open>Connecting from the last listener\<close>

text \<open>
  When the listener that connects is the last of the list, the cursor is already at the
  sentinel when its callable runs: the new connection is appended, and the emission ends
  without calling it.
\<close>

lemma connect_by_last_listener:
  assumes "is_list s S (pre @ [c])"
    "\<forall>x\<in>set pre. slot s x = Some (map Log (tg x))"
    "slot s c = Some (map Log t1 @ Connect S n f # map Log t2)"
    "n \<notin> set (S # pre @ [c])" "length pre + 1 < k"
  shows "\<exists>s'. emit k d S a s = Some (Returned, s') \<and> is_list s' S (pre @ [c, n])
           \<and> slot s' n = Some f
           \<and> log s' = log s @ recorded a tg pre @ map (\<lambda>t. (t, a)) (t1 @ t2)"
proof -
  obtain m where k: "k = Suc m" using assms(5) by (cases k) auto
  obtain j where m: "Suc m = length pre + Suc (Suc j)"
  proof -
    have "length pre + Suc (Suc 0) \<le> Suc m" using assms(5) k by simp
    then obtain j where "Suc m = length pre + Suc (Suc 0) + j"
      using le_Suc_ex by blast
    then show ?thesis by (intro that [of j]) simp
  qed
  let ?em = "emit m (Suc d)"
  from assms(1) have l1: "links s S pre c" and l2: "links s c [] S"
    and dS: "S \<notin> set pre" "c \<noteq> S"
    by (auto simp: is_list_def links_append)
  define s0 where "s0 = holder_ctor d S s"
  define s1 where "s1 = s0\<lparr>holders := (holders s0)(d := (holders s0 d)\<lparr>current := c\<rparr>),
                          log := log s0 @ recorded a tg pre\<rparr>"
  define sA where "sA = (set_current d (nxt s1 c) s1)\<lparr>log := log s1 @ map (\<lambda>t. (t, a)) t1\<rparr>"
  define s2 where "s2 = (connect S (Some f) n sA)\<lparr>log := log sA @ map (\<lambda>t. (t, a)) t2\<rparr>"
  have A: "is_list sA S (pre @ [c])" "hsig (holders sA d) = Some S"
    "current (holders sA d) = S"
    "log sA = log s @ recorded a tg pre @ map (\<lambda>t. (t, a)) t1"
    using assms(1) l2 by (simp_all add: sA_def s1_def s0_def)
  note ca = connect_appends [OF A(1) assms(4), of "Some f"]
  have d1: "dispatch ?em (length pre + Suc (Suc j)) d S a s0
            = dispatch ?em (Suc (Suc j)) d S a s1"
    unfolding s1_def
  proof (rule dispatch_loggers)
    show "links s0 S pre c" using l1 by (simp add: s0_def)
    show "S \<notin> set pre" by (rule dS)
    show "\<forall>c\<in>set pre. slot s0 c = Some (map Log (tg c))" using assms(2) by (simp add: s0_def)
    show "current (holders s0 d) = hd (pre @ [c])" using links_hd [OF l1] by (simp add: s0_def)
    show "hsig (holders s0 d) \<noteq> None" by (simp add: s0_def)
  qed
  have d2: "dispatch ?em (Suc (Suc j)) d S a s1 = dispatch ?em (Suc j) d S a s2"
  proof (rule dispatch_step)
    show "current (holders s1 d) = c" by (simp add: s1_def)
    show "c \<noteq> S" by (rule dS)
    have "slot (set_current d (nxt s1 c) s1) c = slot s c" by (simp add: s1_def s0_def)
    then show "invoke ?em c a (set_current d (nxt s1 c) s1) = Some (Returned, s2)"
      using assms(3) by (simp add: invoke_def run_logs_then run_logs s2_def sA_def)
    show "hsig (holders s2 d) \<noteq> None" using A(2) by (simp add: s2_def)
  qed
  have d3: "dispatch ?em (Suc j) d S a s2 = Some (Returned, s2)"
    by (rule dispatch_end) (simp add: s2_def A(3))
  have "dispatch ?em (Suc m) d S a s0 = Some (Returned, s2)"
    by (simp only: m d1 d2 d3)
  then have "emit k d S a s = Some (Returned, holder_dtor d s2)"
    unfolding k s0_def by (rule emit_from_dispatch)
  moreover have "is_list (holder_dtor d s2) S (pre @ [c, n])"
    using ca(1) by (simp add: holder_dtor_reads s2_def)
  moreover have "log (holder_dtor d s2) = log s @ recorded a tg pre @ map (\<lambda>t. (t, a)) (t1 @ t2)"
    "slot (holder_dtor d s2) n = Some f"
    by (simp_all add: holder_dtor_reads s2_def A(4))
  ultimately show ?thesis by blast
qed

section \<open>Disconnecting twice\<close>

lemma disconnect_idle: "sig s c = None \<Longrightarrow> disconnect c s = Some s"
  by (simp add: disconnect_def)

lemma disconnect_nulls_sig: "disconnect c s = Some s' \<Longrightarrow> sig s' c = None"
  by (auto simp: disconnect_def split: option.splits)

text \<open>
  C6. \<open>disconnect\<close> is idempotent: a second call changes nothing, whatever the first one
  did (the two calls in sequence are the first call); and on a connection whose \<open>sig\<close>
  is null the call returns the store as it was, so the connection, every list and every
  holder are unchanged.
\<close>

theorem disconnect_idempotent:
  "(case disconnect c s of None \<Rightarrow> None | Some s1 \<Rightarrow> disconnect c s1) = disconnect c s
   \<and> (sig s c = None \<longrightarrow> disconnect c s = Some s)"
  by (auto simp: disconnect_idle dest: disconnect_nulls_sig split: option.splits)

theorem disconnect_idempotent_witness:
  "(let s = connect 0 (Some [Log 1]) 1 init
    in sig s 2 = None \<and> disconnect 2 s = Some s
       \<and> (case disconnect 1 s of
             None \<Rightarrow> False
           | Some s1 \<Rightarrow> sig s1 1 = None \<and> nxt s1 0 = 0 \<and> disconnect 1 s1 = Some s1))"
proof -
  define s where "s = connect 0 (Some [Log 1]) 1 init"
  have a: "sig s 2 = None"
    unfolding s_def by code_simp
  have b: "case disconnect 1 s of None \<Rightarrow> False
           | Some s1 \<Rightarrow> sig s1 1 = None \<and> nxt s1 0 = 0"
    unfolding s_def by code_simp
  from disconnect_idempotent [of 2 s] disconnect_idempotent [of 1 s] a b
  show ?thesis
    unfolding s_def [symmetric] Let_def by (auto split: option.splits)
qed

section \<open>Move assignment\<close>

text \<open>
  C8. Moving a node is to transfer its place in the list: the destination between the
  source's neighbours, the source idle. Move assignment does not do so when the destination
  is itself a neighbour of the source. In the list with sentinel \<open>0\<close> and the nodes \<open>1\<close>, \<open>2\<close>
  in this order, the assignment \<open>node2 = std::move(node1)\<close> (temporary at \<open>9\<close>) leaves node
  \<open>2\<close> idle and both links of the sentinel at the temporary, which is destroyed: the
  temporary and the destination are adjacent when \<open>swap\<close> exchanges their links, and the
  two \<open>update\<close> calls then make each of the two point at itself. (The move constructor, and move assignment
  to a node that is not a neighbour of the source, do transfer the place:
  \<open>node_move_ctor_transfers\<close>, \<open>node_move_assign_transfers\<close>.)
\<close>

theorem node_move_assign_adjacent:
  "(let s = push_back 0 2 (push_back 0 1 init);
        s' = node_move_assign 9 2 1 s
    in is_list s 0 [1, 2] \<and> nxt s' 0 = 9 \<and> prv s' 0 = 9 \<and> empty_node s' 9
       \<and> empty_node s' 2 \<and> empty_node s' 1 \<and> \<not> is_list s' 0 [2])"
  by code_simp

text \<open>
  C7. A connection is to be linked exactly when its \<open>sig\<close> is non-null. With the
  connections \<open>1\<close> and \<open>2\<close> made in this order on the signal \<open>0\<close>, the assignment
  \<open>c2 = std::move(c1)\<close> leaves connection \<open>2\<close> with \<open>sig\<close> at the signal, holding the
  callable of \<open>1\<close>, and idle; the signal's sentinel points at the destroyed temporary.
\<close>

theorem connection_move_assign_adjacent:
  "(let s = connect 0 (Some [Log 2]) 2 (connect 0 (Some [Log 1]) 1 init)
    in is_list s 0 [1, 2] \<and> sig s 1 = Some 0 \<and> sig s 2 = Some 0 \<and>
       (case connection_move_assign 9 2 1 s of
          None \<Rightarrow> False
        | Some s' \<Rightarrow>
            sig s' 2 = Some 0 \<and> slot s' 2 = Some [Log 1] \<and> empty_node s' 2
            \<and> nxt s' 0 = 9 \<and> prv s' 0 = 9 \<and> empty_node s' 9 \<and> sig s' 9 = None
            \<and> sig s' 1 = None \<and> empty_node s' 1 \<and> \<not> is_list s' 0 [2]))"
  by code_simp

text \<open>
  C1. Every holder's cursor is to be at a linked connection of the signal or at the
  sentinel after each operation. Connections \<open>1\<close> and \<open>2\<close> are on signal \<open>0\<close>, and \<open>3\<close> is
  a default-constructed connection. While the callable of \<open>1\<close> runs, the cursor of the
  emission is at \<open>2\<close>. The assignment \<open>c2 = std::move(c3)\<close> made then unlinks \<open>2\<close>: the list
  is \<open>1\<close> alone, the holder is still on the stack, and its cursor is still at \<open>2\<close>, which
  is idle and has an empty callable. Only \<open>disconnect\<close> of the temporary steers cursors,
  and no cursor is at the temporary. The emission goes on to call the empty callable of
  \<open>2\<close> and ends with \<open>std::bad_function_call\<close>. (\<open>disconnect\<close> and the move constructor
  keep the cursors in the list: \<open>disconnect_unlinks\<close>, \<open>move_ctor_keeps_cursors\<close>.)
\<close>

theorem move_assign_strands_cursor:
  "(let s = connect 0 (Some [Log 2]) 2 (connect 0 (Some [Log 1, MoveAssign 9 2 3]) 1 init);
        sh = holder_ctor 0 0 s;
        s1 = set_current 0 (nxt sh (current (holders sh 0))) sh
    in is_list s1 0 [1, 2] \<and> stack s1 (tail s1 0) [0] \<and> current (holders s1 0) = 2
       \<and> sig s1 3 = None \<and> empty_node s1 3 \<and>
       (case connection_move_assign 9 2 3 s1 of
          None \<Rightarrow> False
        | Some s2 \<Rightarrow>
            is_list s2 0 [1] \<and> stack s2 (tail s2 0) [0] \<and> current (holders s2 0) = 2
            \<and> empty_node s2 2 \<and> sig s2 2 = None \<and> slot s2 2 = None) \<and>
       (case emit 2 0 0 7 s of
          Some (Thrown, s3) \<Rightarrow> log s3 = [(1, 7)] \<and> current (holders s3 0) = 2
        | _ \<Rightarrow> False))"
  by code_simp

section \<open>Emission\<close>

text \<open>
  C4. Listeners that are not changed during the emission are each called once, in the
  order in which they were connected, with the argument of the emission. \<open>connect\<close>
  appends: after the connections \<open>new\<close> are made on a signal whose list is \<open>cs\<close>, the list
  is \<open>cs @ new\<close>. An emission then returns normally, and what it has added to the log is
  what the callables of \<open>cs @ new\<close> record in this order with the argument \<open>a\<close>; nothing
  else of the store has changed but the (dead) holder at depth \<open>d\<close>.
\<close>

theorem emission_in_connection_order:
  assumes "is_list s S cs" "\<forall>c\<in>set cs. slot s c = Some (map Log (tg c))"
    "distinct (S # cs @ new)" "length cs + length new < n"
  shows "is_list (connect_loggers S tg new s) S (cs @ new) \<and>
         emit n d S a (connect_loggers S tg new s) =
         Some (Returned,
               (connect_loggers S tg new s)
                 \<lparr>holders := (holders s)(d := \<lparr>hprev = tail s S, current = S, hsig = None\<rparr>),
                  log := log s @ recorded a tg (cs @ new)\<rparr>)"
proof -
  let ?s = "connect_loggers S tg new s"
  note ca = connect_loggers_appends [OF assms(1) assms(3), of tg]
  have sl: "\<forall>c\<in>set (cs @ new). slot ?s c = Some (map Log (tg c))"
    using ca assms(2) by auto
  have "length (cs @ new) < n" using assms(4) by simp
  from emit_loggers [OF conjunct1 [OF ca] sl this, of d a] ca
  show ?thesis by simp
qed

theorem emission_in_connection_order_witness:
  "is_list init 0 [] \<and> distinct [0, 1, 2, 3 :: nat] \<and>
   (let s = connect_loggers 0 (\<lambda>c. [c]) [1, 2, 3] init
    in is_list s 0 [1, 2, 3] \<and>
       (case emit 4 0 0 7 s of
          Some (Returned, s') \<Rightarrow> log s' = [(1, 7), (2, 7), (3, 7)]
        | _ \<Rightarrow> False))"
proof -
  have a: "is_list init 0 []" by code_simp
  have b: "log init = []" by code_simp
  from emission_in_connection_order [of init 0 "[]" "\<lambda>c. [c]" "[1, 2, 3]" 4 0 7] a b
  show ?thesis by (simp add: Let_def)
qed

text \<open>
  C9. A callable that throws ends the emission with the exception. The listeners before
  it have been called; the state is the state before the emission but for the log and the
  dead holder: \<open>tail\<close> is what it was, so the holder has been popped, and the cursor of the
  holder had been stepped past the throwing connection \<open>c\<close>, to the head of \<open>post\<close>,
  before the callable ran.
\<close>

theorem throw_unwinds:
  assumes "is_list s S (pre @ c # post)"
    "\<forall>x\<in>set pre. slot s x = Some (map Log (tg x))"
    "slot s c = Some (map Log ts @ Throw # rest)"
    "length pre < n"
  shows "emit n d S a s =
         Some (Thrown,
               s\<lparr>holders := (holders s)
                    (d := \<lparr>hprev = tail s S, current = hd (post @ [S]), hsig = None\<rparr>),
                  log := log s @ recorded a tg pre @ map (\<lambda>t. (t, a)) ts\<rparr>)"
proof -
  obtain m where n: "n = Suc m" using assms(4) by (cases n) auto
  obtain k where m: "Suc m = length pre + Suc k" using assms(4) n
    by (metis Suc_leI add_Suc_right le_Suc_ex less_Suc_eq_le)
  let ?em = "emit m (Suc d)"
  let ?s0 = "holder_ctor d S s"
  let ?s1 = "?s0\<lparr>holders := (holders ?s0)(d := (holders ?s0 d)\<lparr>current := c\<rparr>),
                 log := log ?s0 @ recorded a tg pre\<rparr>"
  let ?s2 = "(set_current d (nxt ?s1 c) ?s1)\<lparr>log := log ?s1 @ map (\<lambda>t. (t, a)) ts\<rparr>"
  from assms(1) have l1: "links s S pre c" and l2: "links s c post S"
    and d: "S \<notin> set pre" "c \<noteq> S"
    by (auto simp: is_list_def links_append)
  have "dispatch ?em (length pre + Suc k) d S a ?s0 = dispatch ?em (Suc k) d S a ?s1"
  proof (rule dispatch_loggers)
    show "links ?s0 S pre c" using l1 by simp
    show "S \<notin> set pre" by (rule d)
    show "\<forall>c\<in>set pre. slot ?s0 c = Some (map Log (tg c))" using assms(2) by simp
    show "current (holders ?s0 d) = hd (pre @ [c])" using links_hd [OF l1] by simp
    show "hsig (holders ?s0 d) \<noteq> None" by simp
  qed
  also have "\<dots> = Some (Thrown, ?s2)"
  proof (rule dispatch_throw)
    show "current (holders ?s1 d) = c" by simp
    show "c \<noteq> S" by (rule d)
    show "invoke ?em c a (set_current d (nxt ?s1 c) ?s1) = Some (Thrown, ?s2)"
      using assms(3) by (simp add: invoke_def run_logs_then)
  qed
  finally have disp: "dispatch ?em (length pre + Suc k) d S a ?s0 = Some (Thrown, ?s2)" .
  have dt: "holder_dtor d ?s2 =
     s\<lparr>holders := (holders s)
          (d := \<lparr>hprev = tail s S, current = hd (post @ [S]), hsig = None\<rparr>),
       log := log s @ recorded a tg pre @ map (\<lambda>t. (t, a)) ts\<rparr>"
    using links_hd [OF l2] by (simp add: holder_dtor_def holder_ctor_def store_defs)
  have "emit n d S a s =
        (case dispatch ?em (length pre + Suc k) d S a ?s0 of
           None \<Rightarrow> None | Some (r, s1) \<Rightarrow> Some (r, holder_dtor d s1))"
    by (subst n, subst emit_unfold, subst m) (rule refl)
  also have "\<dots> = Some (Thrown, holder_dtor d ?s2)"
    by (simp only: disp option.case prod.case)
  finally show ?thesis by (simp only: dt)
qed

theorem throw_unwinds_witness:
  "(let s = connect 0 (Some [Log 3]) 3
              (connect 0 (Some [Log 2, Throw, Log 4]) 2 (connect 0 (Some [Log 1]) 1 init))
    in is_list s 0 [1, 2, 3] \<and> slot s 1 = Some [Log 1] \<and> slot s 2 = Some [Log 2, Throw, Log 4]
       \<and> tail s 0 = None \<and>
       (case emit 2 0 0 7 s of
          Some (Thrown, s') \<Rightarrow>
            log s' = [(1, 7), (2, 7)] \<and> tail s' 0 = None \<and> current (holders s' 0) = 3
        | _ \<Rightarrow> False))"
proof -
  define s where "s = connect 0 (Some [Log 3]) 3
              (connect 0 (Some [Log 2, Throw, Log 4]) 2 (connect 0 (Some [Log 1]) 1 init))"
  have a: "is_list s 0 ([1] @ 2 # [3])" "\<forall>x\<in>set [1]. slot s x = Some (map Log [x])"
    "slot s 2 = Some (map Log [2] @ Throw # [Log 4])" "tail s 0 = None" "log s = []"
    unfolding s_def by code_simp+
  from throw_unwinds [OF a(1-3), of 2 0 7] a
  show ?thesis unfolding s_def [symmetric] by (simp add: Let_def)
qed

text \<open>
  C5. A listener connected from inside a callable during an emission goes to the tail of
  the list and is called by the same emission, provided the cursor is not yet at \<open>end()\<close>:
  the connecting listener \<open>c\<close> is not the last one (\<open>post\<close> is not empty), so the cursor,
  stepped before the callable of \<open>c\<close> ran, is at a connection. The emission returns
  normally; the new connection \<open>n\<close> is the last of the list and its record is the last of
  the log. (Connected by the last listener, it is not called:
  \<open>connect_by_last_listener\<close>.)
\<close>

theorem connect_during_emission:
  assumes "is_list s S (pre @ c # post)" "post \<noteq> []"
    "\<forall>x\<in>set (pre @ post). slot s x = Some (map Log (tg x))"
    "slot s c = Some (map Log t1 @ Connect S n (map Log (tg n)) # map Log t2)"
    "n \<notin> set (S # pre @ c # post)" "length pre + length post + 2 < k"
  shows "\<exists>s'. emit k d S a s = Some (Returned, s') \<and> is_list s' S (pre @ c # post @ [n])
           \<and> log s' = log s @ recorded a tg pre @ map (\<lambda>t. (t, a)) (t1 @ t2)
                        @ recorded a tg post @ map (\<lambda>t. (t, a)) (tg n)"
proof -
  obtain m where k: "k = Suc m" using assms(6) by (cases k) auto
  obtain j where m: "Suc m = length pre + Suc (length (post @ [n]) + Suc j)"
  proof -
    have "length pre + Suc (length (post @ [n]) + Suc 0) \<le> Suc m" using assms(6) k by simp
    then obtain j where "Suc m = length pre + Suc (length (post @ [n]) + Suc 0) + j"
      using le_Suc_ex by blast
    then show ?thesis by (intro that [of j]) simp
  qed
  let ?em = "emit m (Suc d)"
  let ?f = "Some (map Log (tg n))"
  from assms(1) have l1: "links s S pre c" and l2: "links s c post S"
    and dS: "S \<notin> set pre" "c \<noteq> S" "S \<notin> set post"
    by (auto simp: is_list_def links_append)
  define s0 where "s0 = holder_ctor d S s"
  define s1 where "s1 = s0\<lparr>holders := (holders s0)(d := (holders s0 d)\<lparr>current := c\<rparr>),
                          log := log s0 @ recorded a tg pre\<rparr>"
  define sA where "sA = (set_current d (nxt s1 c) s1)\<lparr>log := log s1 @ map (\<lambda>t. (t, a)) t1\<rparr>"
  define s2 where "s2 = (connect S ?f n sA)\<lparr>log := log sA @ map (\<lambda>t. (t, a)) t2\<rparr>"
  define s3 where "s3 = s2\<lparr>holders := (holders s2)(d := (holders s2 d)\<lparr>current := S\<rparr>),
                          log := log s2 @ recorded a tg (post @ [n])\<rparr>"
  have A: "is_list sA S (pre @ c # post)" "slot sA = slot s" "hsig (holders sA d) = Some S"
    "current (holders sA d) = hd (post @ [S])"
    "log sA = log s @ recorded a tg pre @ map (\<lambda>t. (t, a)) t1"
    using assms(1) links_hd [OF l2] by (simp_all add: sA_def s1_def s0_def)
  note ca = connect_appends [OF A(1) assms(5), of ?f]
  have d1: "dispatch ?em (length pre + Suc (length (post @ [n]) + Suc j)) d S a s0
            = dispatch ?em (Suc (length (post @ [n]) + Suc j)) d S a s1"
    unfolding s1_def
  proof (rule dispatch_loggers)
    show "links s0 S pre c" using l1 by (simp add: s0_def)
    show "S \<notin> set pre" by (rule dS)
    show "\<forall>c\<in>set pre. slot s0 c = Some (map Log (tg c))" using assms(3) by (simp add: s0_def)
    show "current (holders s0 d) = hd (pre @ [c])" using links_hd [OF l1] by (simp add: s0_def)
    show "hsig (holders s0 d) \<noteq> None" by (simp add: s0_def)
  qed
  have d2: "dispatch ?em (Suc (length (post @ [n]) + Suc j)) d S a s1
            = dispatch ?em (length (post @ [n]) + Suc j) d S a s2"
  proof (rule dispatch_step)
    show "current (holders s1 d) = c" by (simp add: s1_def)
    show "c \<noteq> S" by (rule dS)
    have "slot (set_current d (nxt s1 c) s1) c = slot s c" by (simp add: s1_def s0_def)
    then show "invoke ?em c a (set_current d (nxt s1 c) s1) = Some (Returned, s2)"
      using assms(4) by (simp add: invoke_def run_logs_then run_logs s2_def sA_def)
    show "hsig (holders s2 d) \<noteq> None" using A(3) by (simp add: s2_def ca)
  qed
  have l3: "links s2 c (post @ [n]) S"
    using ca(1) by (simp add: s2_def is_list_def links_append)
  have d3: "dispatch ?em (length (post @ [n]) + Suc j) d S a s2 = dispatch ?em (Suc j) d S a s3"
    unfolding s3_def
  proof (rule dispatch_loggers)
    show "links s2 c (post @ [n]) S" by (rule l3)
    show "S \<notin> set (post @ [n])" using dS assms(5) by auto
    show "\<forall>x\<in>set (post @ [n]). slot s2 x = Some (map Log (tg x))"
      using assms(3) by (auto simp: s2_def ca A(2))
    show "current (holders s2 d) = hd ((post @ [n]) @ [S])"
      using A(4) assms(2) by (cases post) (simp_all add: s2_def ca)
    show "hsig (holders s2 d) \<noteq> None" using A(3) by (simp add: s2_def ca)
  qed
  have d4: "dispatch ?em (Suc j) d S a s3 = Some (Returned, s3)"
    by (rule dispatch_end) (simp add: s3_def)
  have "dispatch ?em (Suc m) d S a s0 = Some (Returned, s3)"
    by (simp only: m d1 d2 d3 d4)
  then have "emit k d S a s = Some (Returned, holder_dtor d s3)"
    unfolding k s0_def by (rule emit_from_dispatch)
  moreover have "is_list (holder_dtor d s3) S (pre @ c # post @ [n])"
    using ca(1) by (simp add: holder_dtor_reads s3_def s2_def)
  moreover have "log (holder_dtor d s3) = log s @ recorded a tg pre @ map (\<lambda>t. (t, a)) (t1 @ t2)
                        @ recorded a tg post @ map (\<lambda>t. (t, a)) (tg n)"
    by (simp add: holder_dtor_reads s3_def s2_def ca A(5))
  ultimately show ?thesis by blast
qed

theorem connect_during_emission_witness:
  "(let s = connect 0 (Some [Log 2]) 2
              (connect 0 (Some [Log 1, Connect 0 3 [Log 3], Log 11]) 1 init)
    in is_list s 0 [1, 2] \<and> slot s 2 = Some [Log 2] \<and>
       (\<exists>s'. emit 4 0 0 7 s = Some (Returned, s') \<and> is_list s' 0 [1, 2, 3]
          \<and> log s' = [(1, 7), (11, 7), (2, 7), (3, 7)]))"
proof -
  define s where "s = connect 0 (Some [Log 2]) 2
              (connect 0 (Some [Log 1, Connect 0 3 [Log 3], Log 11]) 1 init)"
  have a: "is_list s 0 ([] @ 1 # [2])" "[2 :: nat] \<noteq> []"
    "\<forall>x\<in>set ([] @ [2]). slot s x = Some (map Log [x])"
    "slot s 1 = Some (map Log [1] @ Connect 0 3 (map Log [3]) # map Log [11])"
    "3 \<notin> set (0 # [] @ 1 # [2 :: nat])" "log s = []"
    unfolding s_def by code_simp+
  from connect_during_emission [OF a(1-5), of 4 0 7] a
  show ?thesis unfolding s_def [symmetric] Let_def by auto
qed

text \<open>
  C2. A listener that disconnects itself from inside its callable does not keep the
  listeners after it from being called. Here any of the listeners may do so (\<open>dc c\<close>), at
  any point of its callable, on a signal that may be in the middle of outer emissions
  (the holders \<open>hs\<close>). The emission returns normally and every listener of the list has
  been called, in order; the list is left with the listeners that did not disconnect, the
  others are idle with a null \<open>sig\<close>, and the holder has been popped.
\<close>

theorem self_disconnect_keeps_dispatching:
  assumes "is_list s S cs"
    "\<forall>c\<in>set cs. sig s c = Some S \<and>
        slot s c = Some (if dc c then map Log (t1 c) @ Disconnect c # map Log (t2 c)
                         else map Log (t1 c @ t2 c))"
    "stack s (tail s S) hs" "d \<notin> set hs" "length cs < n"
  shows "\<exists>s'. emit n d S a s = Some (Returned, s')
           \<and> log s' = log s @ recorded a (\<lambda>c. t1 c @ t2 c) cs
           \<and> is_list s' S (filter (\<lambda>c. \<not> dc c) cs)
           \<and> (\<forall>c\<in>set cs. dc c \<longrightarrow> sig s' c = None \<and> empty_node s' c)
           \<and> tail s' S = tail s S"
proof -
  obtain m where n: "n = Suc m" using assms(5) by (cases n) auto
  let ?s0 = "holder_ctor d S s"
  have "\<exists>s'. dispatch (emit m (Suc d)) n d S a ?s0 = Some (Returned, s')
           \<and> log s' = log ?s0 @ recorded a (\<lambda>c. t1 c @ t2 c) cs
           \<and> is_list s' S ([] @ filter (\<lambda>c. \<not> dc c) cs)
           \<and> (\<forall>c\<in>set cs. dc c \<longrightarrow> sig s' c = None \<and> empty_node s' c)
           \<and> tail s' = tail ?s0 \<and> hsig (holders s' d) = Some S
           \<and> hprev (holders s' d) = hprev (holders ?s0 d)
           \<and> (\<forall>x. x \<notin> set (S # [] @ cs) \<longrightarrow> nxt s' x = nxt ?s0 x \<and> prv s' x = prv ?s0 x)
           \<and> (\<forall>x. x \<notin> set cs \<longrightarrow> sig s' x = sig ?s0 x)"
  proof (rule dispatch_self_disconnect)
    show "is_list ?s0 S ([] @ cs)" using assms(1) by simp
    show "\<forall>c\<in>set cs. sig ?s0 c = Some S \<and>
        slot ?s0 c = Some (if dc c then map Log (t1 c) @ Disconnect c # map Log (t2 c)
                           else map Log (t1 c @ t2 c))"
      using assms(2) by simp
    show "stack ?s0 (tail ?s0 S) (d # hs)" using assms(3,4) by (rule stack_holder_ctor)
    show "current (holders ?s0 d) = hd (cs @ [S])"
      using assms(1) by (simp add: is_list_def links_hd)
    show "hsig (holders ?s0 d) = Some S" by simp
    show "length cs < n" by (rule assms(5))
  qed
  then obtain s' where s': "dispatch (emit m (Suc d)) (Suc m) d S a ?s0 = Some (Returned, s')"
    "log s' = log s @ recorded a (\<lambda>c. t1 c @ t2 c) cs"
    "is_list s' S (filter (\<lambda>c. \<not> dc c) cs)"
    "\<forall>c\<in>set cs. dc c \<longrightarrow> sig s' c = None \<and> empty_node s' c"
    "tail s' = tail ?s0" "hsig (holders s' d) = Some S"
    "hprev (holders s' d) = hprev (holders ?s0 d)"
    unfolding n by auto
  have "emit n d S a s = Some (Returned, holder_dtor d s')"
    unfolding n using s'(1) by (rule emit_from_dispatch)
  moreover have "tail (holder_dtor d s') S = tail s S"
    using s'(5,6,7) by (simp add: tail_holder_dtor)
  ultimately show ?thesis
    using s'(2,3,4) by (intro exI [of _ "holder_dtor d s'"]) (simp add: holder_dtor_reads empty_node_def)
qed

theorem self_disconnect_keeps_dispatching_witness:
  "(let s = connect 0 (Some [Log 3, Log 13]) 3
              (connect 0 (Some [Log 2, Disconnect 2, Log 12]) 2
                (connect 0 (Some [Log 1, Log 11]) 1 init))
    in is_list s 0 [1, 2, 3] \<and> stack s (tail s 0) [] \<and>
       (\<exists>s'. emit 4 0 0 7 s = Some (Returned, s')
          \<and> log s' = [(1, 7), (11, 7), (2, 7), (12, 7), (3, 7), (13, 7)]
          \<and> is_list s' 0 [1, 3] \<and> sig s' 2 = None \<and> empty_node s' 2))"
proof -
  define s where "s = connect 0 (Some [Log 3, Log 13]) 3
              (connect 0 (Some [Log 2, Disconnect 2, Log 12]) 2
                (connect 0 (Some [Log 1, Log 11]) 1 init))"
  have a: "is_list s 0 [1, 2, 3]"
    "\<forall>c\<in>set [1, 2, 3]. sig s c = Some 0 \<and>
        slot s c = Some (if c = 2 then map Log [c] @ Disconnect c # map Log [c + 10]
                         else map Log ([c] @ [c + 10]))"
    "stack s (tail s 0) []" "log s = []"
    unfolding s_def by code_simp+
  from self_disconnect_keeps_dispatching [OF a(1-3), of 0 4 7] a
  show ?thesis unfolding s_def [symmetric] Let_def by auto
qed

text \<open>
  C10. The move constructor puts the new connection \<open>B\<close> right after the source \<open>A\<close> and
  then disconnects \<open>A\<close>, so \<open>B\<close> stands where \<open>A\<close> stood, with the callable of \<open>A\<close>, and
  every holder whose cursor was at \<open>A\<close> has it at \<open>B\<close>. Here the listener \<open>p\<close> before \<open>A\<close>
  makes the move during an emission: the cursor of the emission is at \<open>A\<close> at that time.
  The emission returns normally and has called, after \<open>p\<close>, the callable that \<open>A\<close> held
  (now in \<open>B\<close>) and then the listeners after it; \<open>A\<close> is idle with a null \<open>sig\<close>. The
  cursors of the outer emissions (holders \<open>hs\<close>) that were at \<open>A\<close> are at \<open>B\<close>.
\<close>

theorem move_construct_takes_the_place:
  assumes "is_list s S (pre @ p # A # post)"
    "\<forall>x\<in>set (pre @ A # post). slot s x = Some (map Log (tg x))"
    "slot s p = Some (map Log t1 @ MoveConstruct B A # map Log t2)"
    "sig s A = Some S" "B \<notin> set (S # pre @ p # A # post)"
    "stack s (tail s S) hs" "d \<notin> set hs" "length pre + length post + 2 < n"
  shows "\<exists>s'. emit n d S a s = Some (Returned, s')
           \<and> log s' = log s @ recorded a tg pre @ map (\<lambda>t. (t, a)) (t1 @ t2)
                        @ recorded a tg (A # post)
           \<and> is_list s' S (pre @ p # B # post)
           \<and> slot s' B = slot s A \<and> sig s' B = Some S
           \<and> sig s' A = None \<and> empty_node s' A
           \<and> (\<forall>h\<in>set hs. current (holders s h) = A \<longrightarrow> current (holders s' h) = B)"
proof -
  obtain m where n: "n = Suc m" using assms(8) by (cases n) auto
  obtain j where m: "Suc m = length pre + Suc (length (B # post) + Suc j)"
  proof -
    have "length pre + Suc (length (B # post) + Suc 0) \<le> Suc m" using assms(8) n by simp
    then obtain j where "Suc m = length pre + Suc (length (B # post) + Suc 0) + j"
      using le_Suc_ex by blast
    then show ?thesis by (intro that [of j]) simp
  qed
  let ?em = "emit m (Suc d)"
  let ?tg = "tg(B := tg A)"
  from assms(1) have l1: "links s S pre p" and l2: "links s p (A # post) S"
    and dS: "S \<notin> set pre" "p \<noteq> S" "S \<notin> set (A # post)"
    by (auto simp: is_list_def links_append)
  have np: "nxt s p = A" using l2 by simp
  define s0 where "s0 = holder_ctor d S s"
  define s1 where "s1 = s0\<lparr>holders := (holders s0)(d := (holders s0 d)\<lparr>current := p\<rparr>),
                          log := log s0 @ recorded a tg pre\<rparr>"
  define sB where "sB = (set_current d (nxt s1 p) s1)\<lparr>log := log s1 @ map (\<lambda>t. (t, a)) t1\<rparr>"
  have B: "is_list sB S ((pre @ [p]) @ A # post)" "sig sB A = Some S" "slot sB = slot s"
    "log sB = log s @ recorded a tg pre @ map (\<lambda>t. (t, a)) t1"
    "holders sB d = \<lparr>hprev = tail s S, current = A, hsig = Some S\<rparr>"
    "\<forall>h. h \<noteq> d \<longrightarrow> holders sB h = holders s h" "tail sB = (tail s)(S := Some d)"
    using assms(1,4) np by (simp_all add: sB_def s1_def s0_def)
  have sf: "stack sB t l = stack s0 t l" for t l
    by (rule stack_frame) (simp add: sB_def s1_def)
  have tf: "tail sB = tail s0" by (simp add: sB_def s1_def)
  have stB: "stack sB (tail sB S) (d # hs)"
    using stack_holder_ctor [OF assms(6,7), folded s0_def] by (simp only: sf tf)
  have "B \<notin> set (S # (pre @ [p]) @ A # post)" using assms(5) by simp
  from connection_move_ctor_linked [OF B(1,2) this stB]
  obtain sC where C: "connection_move_ctor B A sB = Some sC"
    "is_list sC S ((pre @ [p]) @ B # post)"
    "slot sC = (slot sB)(B := slot sB A, A := None)"
    "sig sC = (sig sB)(B := Some S, A := None)"
    "\<forall>h. holders sC h = (if h \<in> set (d # hs) \<and> current (holders sB h) = A
                           then (holders sB h)\<lparr>current := B\<rparr> else holders sB h)"
    "empty_node sC A" "tail sC = tail sB" "log sC = log sB"
    by blast
  define s2 where "s2 = sC\<lparr>log := log sC @ map (\<lambda>t. (t, a)) t2\<rparr>"
  define s3 where "s3 = s2\<lparr>holders := (holders s2)(d := (holders s2 d)\<lparr>current := S\<rparr>),
                          log := log s2 @ recorded a ?tg (B # post)\<rparr>"
  have hC: "holders sC d = \<lparr>hprev = tail s S, current = B, hsig = Some S\<rparr>"
    using C(5) B(5) by simp
  have d1: "dispatch ?em (length pre + Suc (length (B # post) + Suc j)) d S a s0
            = dispatch ?em (Suc (length (B # post) + Suc j)) d S a s1"
    unfolding s1_def
  proof (rule dispatch_loggers)
    show "links s0 S pre p" using l1 by (simp add: s0_def)
    show "S \<notin> set pre" by (rule dS)
    show "\<forall>c\<in>set pre. slot s0 c = Some (map Log (tg c))" using assms(2) by (simp add: s0_def)
    show "current (holders s0 d) = hd (pre @ [p])" using links_hd [OF l1] by (simp add: s0_def)
    show "hsig (holders s0 d) \<noteq> None" by (simp add: s0_def)
  qed
  have d2: "dispatch ?em (Suc (length (B # post) + Suc j)) d S a s1
            = dispatch ?em (length (B # post) + Suc j) d S a s2"
  proof (rule dispatch_step)
    show "current (holders s1 d) = p" by (simp add: s1_def)
    show "p \<noteq> S" by (rule dS)
    have "slot (set_current d (nxt s1 p) s1) p = slot s p" by (simp add: s1_def s0_def)
    then show "invoke ?em p a (set_current d (nxt s1 p) s1) = Some (Returned, s2)"
      using assms(3) C(1)
      by (simp add: invoke_def run_logs_then run_logs returned_def s2_def sB_def [symmetric])
    show "hsig (holders s2 d) \<noteq> None" by (simp add: s2_def hC)
  qed
  have d3: "dispatch ?em (length (B # post) + Suc j) d S a s2 = dispatch ?em (Suc j) d S a s3"
    unfolding s3_def
  proof (rule dispatch_loggers)
    show "links s2 p (B # post) S"
      using C(2) by (simp add: s2_def is_list_def links_append)
    show "S \<notin> set (B # post)" using dS assms(5) by auto
    show "\<forall>x\<in>set (B # post). slot s2 x = Some (map Log (?tg x))"
      using assms(1,2,5) by (auto simp: s2_def C(3) B(3) is_list_def)
    show "current (holders s2 d) = hd ((B # post) @ [S])" by (simp add: s2_def hC)
    show "hsig (holders s2 d) \<noteq> None" by (simp add: s2_def hC)
  qed
  have d4: "dispatch ?em (Suc j) d S a s3 = Some (Returned, s3)"
    by (rule dispatch_end) (simp add: s3_def)
  have "dispatch ?em (Suc m) d S a s0 = Some (Returned, s3)"
    by (simp only: m d1 d2 d3 d4)
  then have e: "emit n d S a s = Some (Returned, holder_dtor d s3)"
    unfolding n s0_def by (rule emit_from_dispatch)
  have "recorded a ?tg post = recorded a tg post"
    using assms(5) by (intro recorded_cong) auto
  then have rc: "recorded a ?tg (B # post) = recorded a tg (A # post)"
    by simp
  have "log (holder_dtor d s3) = log s @ recorded a tg pre @ map (\<lambda>t. (t, a)) (t1 @ t2)
                        @ recorded a tg (A # post)"
    unfolding holder_dtor_reads by (simp add: s3_def s2_def C(8) B(4) rc del: recorded_simps)
  moreover have "is_list (holder_dtor d s3) S (pre @ p # B # post)"
    using C(2) by (simp add: holder_dtor_reads s3_def s2_def)
  moreover have "slot (holder_dtor d s3) B = slot s A" "sig (holder_dtor d s3) B = Some S"
    "sig (holder_dtor d s3) A = None" "empty_node (holder_dtor d s3) A"
    using C(6) assms(5) by (auto simp: holder_dtor_reads s3_def s2_def C(3,4) B(3) empty_node_def)
  moreover have "\<forall>h\<in>set hs. current (holders s h) = A \<longrightarrow> current (holders (holder_dtor d s3) h) = B"
  proof (intro ballI impI)
    fix h assume h: "h \<in> set hs" "current (holders s h) = A"
    then have hd: "h \<noteq> d" using assms(7) by auto
    then have "holders (holder_dtor d s3) h = holders sC h"
      by (simp add: holder_dtor_def s3_def s2_def hC)
    also have "\<dots> = (holders s h)\<lparr>current := B\<rparr>"
      using h hd C(5) B(6) by simp
    finally show "current (holders (holder_dtor d s3) h) = B" by simp
  qed
  ultimately show ?thesis using e by blast
qed

theorem move_construct_takes_the_place_witness:
  "(let s = connect 0 (Some [Log 3]) 3
              (connect 0 (Some [Log 2]) 2
                (connect 0 (Some [Log 1, MoveConstruct 5 2, Log 11]) 1 init))
    in is_list s 0 [1, 2, 3] \<and> sig s 2 = Some 0 \<and> stack s (tail s 0) [] \<and>
       (\<exists>s'. emit 4 0 0 7 s = Some (Returned, s')
          \<and> log s' = [(1, 7), (11, 7), (2, 7), (3, 7)]
          \<and> is_list s' 0 [1, 5, 3] \<and> slot s' 5 = Some [Log 2] \<and> sig s' 2 = None))"
proof -
  define s where "s = connect 0 (Some [Log 3]) 3
              (connect 0 (Some [Log 2]) 2
                (connect 0 (Some [Log 1, MoveConstruct 5 2, Log 11]) 1 init))"
  have a: "is_list s 0 ([] @ 1 # 2 # [3])"
    "\<forall>x\<in>set ([] @ 2 # [3]). slot s x = Some (map Log [x])"
    "slot s 1 = Some (map Log [1] @ MoveConstruct 5 2 # map Log [11])"
    "sig s 2 = Some 0" "5 \<notin> set (0 # [] @ 1 # 2 # [3 :: nat])"
    "stack s (tail s 0) []" "log s = []" "slot s 2 = Some [Log 2]"
    unfolding s_def by code_simp+
  from move_construct_takes_the_place [OF a(1-6), of 0 4 7] a
  show ?thesis unfolding s_def [symmetric] Let_def by auto
qed

text \<open>
  C3. A callable destroys the signal during an emission, which may itself run inside outer
  emissions of the same signal (the holders \<open>hs\<close>). The destructor returns; the callable
  runs to its end; the emission then returns normally without calling any of the
  listeners \<open>post\<close> that were still to come: the log ends with the records of the
  destroying callable. Every holder of the stack has a null \<open>sig\<close>, which is what the loop
  of each outer emission tests when its callable returns (\<open>dispatch_destroyed\<close>), and the
  stack is empty. Every connection that was in the list is idle and has a null \<open>sig\<close>;
  \<open>disconnect\<close> and the destructor of such a connection return the store as it is.
\<close>

theorem destroying_the_signal_ends_the_emission:
  assumes "is_list s S (pre @ c # post)"
    "\<forall>x\<in>set pre. slot s x = Some (map Log (tg x))"
    "slot s c = Some (map Log t1 @ DestroySignal S # map Log t2)"
    "stack s (tail s S) hs" "d \<notin> set hs" "length pre < n"
  shows "\<exists>s'. emit n d S a s = Some (Returned, s')
           \<and> log s' = log s @ recorded a tg pre @ map (\<lambda>t. (t, a)) (t1 @ t2)
           \<and> (\<forall>h\<in>set hs. hsig (holders s' h) = None) \<and> tail s' S = None
           \<and> (\<forall>x\<in>set (pre @ c # post).
                 sig s' x = None \<and> empty_node s' x
                 \<and> disconnect x s' = Some s' \<and> connection_dtor x s' = Some s')"
proof -
  obtain m where n: "n = Suc m" using assms(6) by (cases n) auto
  obtain k where m: "Suc m = length pre + Suc k" using assms(6) n
    by (metis Suc_leI add_Suc_right le_Suc_ex less_Suc_eq_le)
  let ?em = "emit m (Suc d)"
  from assms(1) have l1: "links s S pre c" and dS: "S \<notin> set pre" "c \<noteq> S"
    by (auto simp: is_list_def links_append)
  define s0 where "s0 = holder_ctor d S s"
  define s1 where "s1 = s0\<lparr>holders := (holders s0)(d := (holders s0 d)\<lparr>current := c\<rparr>),
                          log := log s0 @ recorded a tg pre\<rparr>"
  define sB where "sB = (set_current d (nxt s1 c) s1)\<lparr>log := log s1 @ map (\<lambda>t. (t, a)) t1\<rparr>"
  have B: "is_list sB S (pre @ c # post)"
    "log sB = log s @ recorded a tg pre @ map (\<lambda>t. (t, a)) t1"
    using assms(1) by (simp_all add: sB_def s1_def s0_def)
  have sf: "stack sB t l = stack s0 t l" for t l
    by (rule stack_frame) (simp add: sB_def s1_def)
  have tf: "tail sB = tail s0" by (simp add: sB_def s1_def)
  have stB: "stack sB (tail sB S) (d # hs)"
    using stack_holder_ctor [OF assms(4,5), folded s0_def] by (simp only: sf tf)
  from signal_dtor_list [OF B(1) stB] obtain sD where D: "signal_dtor S sB = Some sD"
    "\<forall>h. holders sD h = (if h \<in> set (d # hs) then (holders sB h)\<lparr>hsig := None\<rparr> else holders sB h)"
    "tail sD = (tail sB)(S := None)"
    "\<forall>x. sig sD x = (if x \<in> set (pre @ c # post) then None else sig sB x)"
    "\<forall>x\<in>set (pre @ c # post). empty_node sD x" "log sD = log sB"
    by blast
  define s2 where "s2 = sD\<lparr>log := log sD @ map (\<lambda>t. (t, a)) t2\<rparr>"
  have hd: "hsig (holders s2 d) = None" using D(2) by (simp add: s2_def)
  have d1: "dispatch ?em (length pre + Suc k) d S a s0 = dispatch ?em (Suc k) d S a s1"
    unfolding s1_def
  proof (rule dispatch_loggers)
    show "links s0 S pre c" using l1 by (simp add: s0_def)
    show "S \<notin> set pre" by (rule dS)
    show "\<forall>c\<in>set pre. slot s0 c = Some (map Log (tg c))" using assms(2) by (simp add: s0_def)
    show "current (holders s0 d) = hd (pre @ [c])" using links_hd [OF l1] by (simp add: s0_def)
    show "hsig (holders s0 d) \<noteq> None" by (simp add: s0_def)
  qed
  have d2: "dispatch ?em (Suc k) d S a s1 = Some (Returned, s2)"
  proof (rule dispatch_destroyed)
    show "current (holders s1 d) = c" by (simp add: s1_def)
    show "c \<noteq> S" by (rule dS)
    have "slot (set_current d (nxt s1 c) s1) c = slot s c" by (simp add: s1_def s0_def)
    then show "invoke ?em c a (set_current d (nxt s1 c) s1) = Some (Returned, s2)"
      using assms(3) D(1)
      by (simp add: invoke_def run_logs_then run_logs returned_def s2_def sB_def [symmetric])
    show "hsig (holders s2 d) = None" by (rule hd)
  qed
  have "dispatch ?em (Suc m) d S a s0 = Some (Returned, s2)"
    by (simp only: m d1 d2)
  then have "emit n d S a s = Some (Returned, holder_dtor d s2)"
    unfolding n s0_def by (rule emit_from_dispatch)
  moreover have "holder_dtor d s2 = s2" using hd by (simp add: holder_dtor_def)
  ultimately have e: "emit n d S a s = Some (Returned, s2)" by simp
  have idle: "sig s2 x = None \<and> empty_node s2 x \<and> disconnect x s2 = Some s2
              \<and> connection_dtor x s2 = Some s2"
    if "x \<in> set (pre @ c # post)" for x
  proof -
    have sg: "sig s2 x = None" using that D(4) by (simp add: s2_def)
    have "empty_node sD x" using that D(5) by blast
    then have em: "empty_node s2 x" by (simp add: s2_def empty_node_def)
    have "disconnect x s2 = Some s2" using sg by (rule disconnect_idle)
    moreover from this have "connection_dtor x s2 = Some s2"
      using em by (simp add: connection_dtor_def node_dtor_def remove_idle)
    ultimately show ?thesis using sg em by simp
  qed
  have "log s2 = log s @ recorded a tg pre @ map (\<lambda>t. (t, a)) (t1 @ t2)"
    by (simp add: s2_def D(6) B(2))
  moreover have "\<forall>h\<in>set hs. hsig (holders s2 h) = None" using D(2) by (simp add: s2_def)
  moreover have "tail s2 S = None" using D(3) by (simp add: s2_def)
  ultimately show ?thesis using e idle by blast
qed

theorem destroying_the_signal_ends_the_emission_witness:
  "(let base = connect 0 (Some [Log 3]) 3
                 (connect 0 (Some [Log 2, DestroySignal 0, Log 12]) 2
                   (connect 0 (Some [Log 1]) 1 init));
        s = set_current 0 2 (holder_ctor 0 0 base)
    in is_list s 0 [1, 2, 3] \<and> stack s (tail s 0) [0] \<and>
       hsig (holders s 0) = Some 0 \<and>
       (\<exists>s'. emit 3 1 0 7 s = Some (Returned, s') \<and> log s' = [(1, 7), (2, 7), (12, 7)]
          \<and> hsig (holders s' 0) = None \<and> tail s' 0 = None
          \<and> sig s' 3 = None \<and> empty_node s' 3
          \<and> disconnect 3 s' = Some s' \<and> connection_dtor 3 s' = Some s'))"
proof -
  define s where "s = set_current 0 2 (holder_ctor 0 0
     (connect 0 (Some [Log 3]) 3
                 (connect 0 (Some [Log 2, DestroySignal 0, Log 12]) 2
                   (connect 0 (Some [Log 1]) 1 init))))"
  have a: "is_list s 0 ([1] @ 2 # [3])"
    "\<forall>x\<in>set [1]. slot s x = Some (map Log [x])"
    "slot s 2 = Some (map Log [2] @ DestroySignal 0 # map Log [12])"
    "stack s (tail s 0) [0]" "1 \<notin> set [0 :: nat]" "log s = []"
    "hsig (holders s 0) = Some 0"
    unfolding s_def by code_simp+
  from destroying_the_signal_ends_the_emission [OF a(1-5), of 3 7] a
  show ?thesis unfolding s_def [symmetric] Let_def by auto
qed

end
